theory Spec2Isabelle
  imports Main "HOL-Library.Sublist"
begin

section \<open>Strings\<close>

text \<open>
  Go strings are byte sequences; they are modelled as \<open>string\<close> (a list of 8-bit
  characters), text outside ASCII being its UTF-8 bytes. \<open>strings.Contains\<close> compares
  bytes. \<open>strings.ToLower\<close> and \<open>strings.TrimSpace\<close> work on bytes as long as the text
  is ASCII and hand text with a byte of \<open>0x80\<close> or more to the Unicode routines of the
  standard library. Those routines (UTF-8 decoding and the tables of the \<open>unicode\<close>
  package) are not part of the program; they are a parameter of the model:
  \<^item> \<open>MapToLower s\<close> is \<open>strings.Map(unicode.ToLower, s)\<close>,
  \<^item> \<open>TrimFuncIsSpace s\<close> is \<open>strings.TrimFunc(s, unicode.IsSpace)\<close>,
  \<^item> \<open>TrimRightFuncIsSpace s\<close> is \<open>strings.TrimRightFunc(s, unicode.IsSpace)\<close>.
  Every statement below holds for every value of the parameter.
\<close>

record stringsLib =
  MapToLower :: "string \<Rightarrow> string"
  TrimFuncIsSpace :: "string \<Rightarrow> string"
  TrimRightFuncIsSpace :: "string \<Rightarrow> string"

definition isUpper :: "char \<Rightarrow> bool" where
  "isUpper c = (65 \<le> (of_char c :: nat) \<and> (of_char c :: nat) \<le> 90)"

definition toLowerChar :: "char \<Rightarrow> char" where
  "toLowerChar c = (if isUpper c then char_of ((of_char c :: nat) + 32) else c)"

text \<open>\<open>c >= utf8.RuneSelf\<close>, and a text without such a byte.\<close>

definition nonASCII :: "char \<Rightarrow> bool" where
  "nonASCII c = (128 \<le> (of_char c :: nat))"

definition isASCII :: "string \<Rightarrow> bool" where
  "isASCII s = list_all (\<lambda>c. \<not> nonASCII c) s"

text \<open>
  \<open>strings.ToLower\<close>: an ASCII text has its letters \<open>A\<close> to \<open>Z\<close> lowered byte by byte
  (or is returned as it is when it has none); any other text goes through
  \<open>strings.Map(unicode.ToLower, s)\<close>.
\<close>

definition ToLower :: "stringsLib \<Rightarrow> string \<Rightarrow> string" where
  "ToLower L s = (if isASCII s then map toLowerChar s else MapToLower L s)"

fun HasPrefix :: "string \<Rightarrow> string \<Rightarrow> bool" where
  "HasPrefix s [] = True"
| "HasPrefix [] (p # ps) = False"
| "HasPrefix (c # cs) (p # ps) = (c = p \<and> HasPrefix cs ps)"

fun Contains :: "string \<Rightarrow> string \<Rightarrow> bool" where
  "Contains [] sub = (sub = [])"
| "Contains (c # cs) sub = (HasPrefix (c # cs) sub \<or> Contains cs sub)"

text \<open>The table \<open>asciiSpace\<close>: tab, line feed, vertical tab, form feed, carriage return, blank.\<close>

definition asciiSpace :: "char \<Rightarrow> bool" where
  "asciiSpace c = (c = CHR '' '' \<or> (9 \<le> (of_char c :: nat) \<and> (of_char c :: nat) \<le> 13))"

text \<open>
  \<open>strings.TrimSpace\<close>. The first loop skips ASCII white space from the left; when it
  meets a byte outside ASCII it returns \<open>TrimFunc(s[start:], unicode.IsSpace)\<close>. The
  second loop does the same from the right on what is left and, at a byte outside
  ASCII, returns \<open>TrimRightFunc(s[start:stop], unicode.IsSpace)\<close>. Otherwise the result
  is \<open>s[start:stop]\<close>.
\<close>

definition TrimSpace :: "stringsLib \<Rightarrow> string \<Rightarrow> string" where
  "TrimSpace L s =
     (case dropWhile asciiSpace s of
        [] \<Rightarrow> []
      | c # cs \<Rightarrow>
          if nonASCII c then TrimFuncIsSpace L (c # cs)
          else
            (case dropWhile asciiSpace (rev (c # cs)) of
               [] \<Rightarrow> []
             | e # es \<Rightarrow>
                 if nonASCII e then TrimRightFuncIsSpace L (rev (e # es))
                 else rev (e # es)))"

text \<open>
  A value of the parameter for the examples. Their texts are ASCII, so its fields are
  never applied.
\<close>

definition exampleLib :: stringsLib where
  "exampleLib =
     \<lparr>MapToLower = (\<lambda>s. s), TrimFuncIsSpace = (\<lambda>s. s), TrimRightFuncIsSpace = (\<lambda>s. s)\<rparr>"

section \<open>Errors and the transient-error classifier\<close>

text \<open>
  An \<open>error\<close> value of the runner is either an error whose chain holds a
  \<open>*neo4j.Neo4jError\<close> (what \<open>errors.As\<close> finds), carrying the driver's
  classification string and the text of \<open>err.Error()\<close>, or any other error, carrying
  the text of \<open>err.Error()\<close>. The context errors \<open>context.DeadlineExceeded\<close> and
  \<open>context.Canceled\<close> are of the second kind.
\<close>

datatype error = Neo4jError string string | PlainError string

definition transientSubstrings :: "string list" where
  "transientSubstrings =
     [''connection refused'', ''i/o timeout'', ''temporary'', ''EOF'', ''broken pipe'',
      ''reset by peer'', ''ServiceUnavailable'']"

text \<open>The \<open>for _, sub := range ...\<close> loop of \<open>looksTransient\<close>, returning at the first hit.\<close>

fun containsAnyFold :: "stringsLib \<Rightarrow> string \<Rightarrow> string list \<Rightarrow> bool" where
  "containsAnyFold L msg [] = False"
| "containsAnyFold L msg (sub # subs) =
     (if Contains (ToLower L msg) (ToLower L sub) then True else containsAnyFold L msg subs)"

fun looksTransient :: "stringsLib \<Rightarrow> error \<Rightarrow> bool" where
  "looksTransient L (Neo4jError cls m) = (if cls = ''TransientError'' then True else False)"
| "looksTransient L (PlainError msg) = containsAnyFold L msg transientSubstrings"

section \<open>Result sets\<close>

text \<open>A cell value (\<open>any\<close> in the source) is kept abstract as a type parameter.\<close>

record 'v ResultSet =
  Columns :: "string list"
  Rows :: "'v list list"

definition emptyResultSet :: "'v ResultSet" where
  "emptyResultSet = \<lparr>Columns = [], Rows = []\<rparr>"

section \<open>Retry and backoff: \<open>execWithRetries\<close>\<close>

text \<open>
  What one pass through the loop body observes from the outside world: the value
  returned by \<open>exec\<close>, the value of \<open>ctx.Err()\<close> read right after a failed call, and
  whether \<open>ctx.Done()\<close> fires before the backoff timer does (then with the value
  \<open>ctx.Err()\<close> has at that moment). The environment gives these for every attempt
  number, counted from 0 as the loop variable \<open>attempt\<close> is.
\<close>

record 'v attempt =
  result :: "error + 'v ResultSet"
  ctxErr :: "error option"
  sleepCancel :: "error option"

text \<open>
  The trace of what the function did: a call of \<open>exec\<close> at an attempt number, a
  backoff timer of so many milliseconds that ran to its end, or one that was cut short
  by the context.
\<close>

datatype event = Exec int | Slept int | Interrupted int

function execLoop ::
  "stringsLib \<Rightarrow> (int \<Rightarrow> 'v attempt) \<Rightarrow> int \<Rightarrow> int \<Rightarrow> error option
     \<Rightarrow> ('v ResultSet \<times> error option) \<times> event list" where
  "execLoop L env retries attempt lastErr =
     (if attempt \<le> retries then
        (case result (env attempt) of
           Inr rs \<Rightarrow> ((rs, None), [Exec attempt])
         | Inl err \<Rightarrow>
             (case ctxErr (env attempt) of
                Some c \<Rightarrow> ((emptyResultSet, Some c), [Exec attempt])
              | None \<Rightarrow>
                  if \<not> looksTransient L err then ((emptyResultSet, Some err), [Exec attempt])
                  else
                    (case sleepCancel (env attempt) of
                       Some c \<Rightarrow>
                         ((emptyResultSet, Some c),
                          [Exec attempt, Interrupted (200 * (attempt + 1))])
                     | None \<Rightarrow>
                         (case execLoop L env retries (attempt + 1) (Some err) of
                            (r, evs) \<Rightarrow>
                              (r, Exec attempt # Slept (200 * (attempt + 1)) # evs)))))
      else ((emptyResultSet, lastErr), []))"
  by pat_completeness auto
termination
  by (relation "measure (\<lambda>(L, env, retries, attempt, lastErr). nat (retries + 1 - attempt))") auto

declare execLoop.simps [simp del]

definition execWithRetries ::
  "stringsLib \<Rightarrow> (int \<Rightarrow> 'v attempt) \<Rightarrow> int \<Rightarrow> ('v ResultSet \<times> error option) \<times> event list" where
  "execWithRetries L env retries = execLoop L env retries 0 None"

text \<open>Readings of one attempt that the statements below use.\<close>

definition errOf :: "'v attempt \<Rightarrow> error option" where
  "errOf a = (case result a of Inl e \<Rightarrow> Some e | Inr rs \<Rightarrow> None)"

definition transientFail :: "stringsLib \<Rightarrow> 'v attempt \<Rightarrow> bool" where
  "transientFail L a = (case result a of Inl e \<Rightarrow> looksTransient L e | Inr rs \<Rightarrow> False)"

definition uncancelled :: "'v attempt \<Rightarrow> bool" where
  "uncancelled a = (ctxErr a = None \<and> sleepCancel a = None)"

fun isExec :: "event \<Rightarrow> bool" where
  "isExec (Exec i) = True"
| "isExec (Slept d) = False"
| "isExec (Interrupted d) = False"

text \<open>
  The trace of \<open>n\<close> failed attempts starting at attempt \<open>a\<close>, each followed by its
  completed backoff sleep of \<open>200 * (attempt + 1)\<close> milliseconds.
\<close>

fun backoffTrace :: "nat \<Rightarrow> int \<Rightarrow> event list" where
  "backoffTrace 0 a = []"
| "backoffTrace (Suc n) a = Exec a # Slept (200 * (a + 1)) # backoffTrace n (a + 1)"

subsection \<open>Example environments\<close>

definition okRS :: "nat ResultSet" where
  "okRS = \<lparr>Columns = [''name''], Rows = [[7]]\<rparr>"

definition permanentEnv :: "int \<Rightarrow> nat attempt" where
  "permanentEnv i =
     \<lparr>result = Inl (Neo4jError ''ClientError'' ''invalid syntax''), ctxErr = None,
      sleepCancel = None\<rparr>"

definition flakyEnv :: "int \<Rightarrow> nat attempt" where
  "flakyEnv i =
     (if i < 2 then
        \<lparr>result = Inl (PlainError ''dial tcp: connection refused''), ctxErr = None,
         sleepCancel = None\<rparr>
      else \<lparr>result = Inr okRS, ctxErr = None, sleepCancel = None\<rparr>)"

definition downEnv :: "int \<Rightarrow> nat attempt" where
  "downEnv i =
     \<lparr>result = Inl (PlainError ''dial tcp: connection refused''), ctxErr = None,
      sleepCancel = None\<rparr>"

definition deadlineEnv :: "int \<Rightarrow> nat attempt" where
  "deadlineEnv i =
     (if i < 1 then
        \<lparr>result = Inl (PlainError ''dial tcp: connection refused''),
         ctxErr = Some (PlainError ''context deadline exceeded''), sleepCancel = None\<rparr>
      else \<lparr>result = Inr okRS, ctxErr = None, sleepCancel = None\<rparr>)"

definition cancelledSleepEnv :: "int \<Rightarrow> nat attempt" where
  "cancelledSleepEnv i =
     (if i < 1 then
        \<lparr>result = Inl (PlainError ''dial tcp: connection refused''), ctxErr = None,
         sleepCancel = None\<rparr>
      else
        \<lparr>result = Inl (PlainError ''read: broken pipe''), ctxErr = None,
         sleepCancel = Some (PlainError ''context canceled'')\<rparr>)"

section \<open>Admission check: \<open>CanRunCypher\<close>\<close>

text \<open>
  \<open>Presence\<close> holds two Go maps used as sets (\<open>map[string]struct{}\<close>); the check only
  looks keys up in them.
\<close>

record Presence =
  Labels :: "string set"
  Rels :: "string set"

text \<open>The character class \<open>[A-Za-z0-9_]\<close> of both regular expressions.\<close>

definition isIdentChar :: "char \<Rightarrow> bool" where
  "isIdentChar c =
     (let n = (of_char c :: nat)
      in (65 \<le> n \<and> n \<le> 90) \<or> (97 \<le> n \<and> n \<le> 122) \<or> (48 \<le> n \<and> n \<le> 57) \<or> n = 95)"

text \<open>
  \<open>reLabel.FindAllStringSubmatch(cypher, -1)\<close> for \<open>reLabel = `:([A-Za-z0-9_]+)`\<close>:
  the successive leftmost matches, which do not overlap, each with the longest run of
  identifier characters after the colon. The function returns the list of the capture
  groups \<open>m[1]\<close>, in the order of the matches.
\<close>

function reLabelFindAll :: "string \<Rightarrow> string list" where
  "reLabelFindAll [] = []"
| "reLabelFindAll (c # cs) =
     (if c = CHR '':'' \<and> takeWhile isIdentChar cs \<noteq> []
      then takeWhile isIdentChar cs # reLabelFindAll (dropWhile isIdentChar cs)
      else reLabelFindAll cs)"
  by pat_completeness auto
termination
  apply (relation "measure length")
    apply simp
  subgoal for c cs using length_dropWhile_le [of isIdentChar cs] by simp
  subgoal by simp
  done

text \<open>The same for \<open>reRel = `\[:([A-Za-z0-9_]+)`\<close>.\<close>

function reRelFindAll :: "string \<Rightarrow> string list" where
  "reRelFindAll [] = []"
| "reRelFindAll [c] = []"
| "reRelFindAll (c # d # cs) =
     (if c = CHR ''['' \<and> d = CHR '':'' \<and> takeWhile isIdentChar cs \<noteq> []
      then takeWhile isIdentChar cs # reRelFindAll (dropWhile isIdentChar cs)
      else reRelFindAll (d # cs))"
  by pat_completeness auto
termination
  apply (relation "measure length")
    apply simp
  subgoal for c d cs using length_dropWhile_le [of isIdentChar cs] by simp
  subgoal by simp
  done

text \<open>The two \<open>for _, m := range ...\<close> loops; \<open>Some\<close> is the early \<open>return false, ...\<close>.\<close>

fun labelsLoop :: "stringsLib \<Rightarrow> string list \<Rightarrow> Presence \<Rightarrow> (bool \<times> string) option" where
  "labelsLoop L [] p = None"
| "labelsLoop L (m # ms) p =
     (let l = ToLower L m
      in if l = [] then labelsLoop L ms p
         else if l \<notin> Labels p then Some (False, ''missing label: '' @ m)
         else labelsLoop L ms p)"

fun relsLoop :: "stringsLib \<Rightarrow> string list \<Rightarrow> Presence \<Rightarrow> (bool \<times> string) option" where
  "relsLoop L [] p = None"
| "relsLoop L (m # ms) p =
     (let r = ToLower L m
      in if r = [] then relsLoop L ms p
         else if r \<notin> Rels p then Some (False, ''missing relationship type: '' @ m)
         else relsLoop L ms p)"

definition CanRunCypher :: "stringsLib \<Rightarrow> string \<Rightarrow> Presence \<Rightarrow> bool \<times> string" where
  "CanRunCypher L cypher p =
     (case labelsLoop L (reLabelFindAll cypher) p of
        Some r \<Rightarrow> r
      | None \<Rightarrow>
          (case relsLoop L (reRelFindAll cypher) p of
             Some r \<Rightarrow> r
           | None \<Rightarrow> (True, [])))"

text \<open>Example schemas and queries.\<close>

definition adPresence :: Presence where
  "adPresence = \<lparr>Labels = {''user'', ''group'', ''computer''}, Rels = {''memberof'', ''adminto''}\<rparr>"

definition memberQuery :: string where
  "memberQuery = ''MATCH (u:User)-[:MemberOf*1..]->(g:Group) RETURN u.name''"

definition mixedPresence :: Presence where
  "mixedPresence = \<lparr>Labels = {''user'', ''contains''}, Rels = {''memberof''}\<rparr>"

definition containsQuery :: string where
  "containsQuery = ''MATCH (o:User)-[:Contains]->(c:Computer) RETURN c.name''"

definition fullPresence :: Presence where
  "fullPresence = \<lparr>Labels = {''user'', ''group'', ''memberof''}, Rels = {''memberof''}\<rparr>"

section \<open>Running one query: \<open>ExecCypher\<close>\<close>

text \<open>\<open>fmt.Sprintf("%d", n)\<close>: the decimal digits of an integer.\<close>

definition digitChar :: "nat \<Rightarrow> char" where
  "digitChar d = char_of (48 + d)"

function natDigits :: "nat \<Rightarrow> string" where
  "natDigits n = (if n < 10 then [digitChar n] else natDigits (n div 10) @ [digitChar (n mod 10)])"
  by pat_completeness auto
termination
  by (relation "measure id") auto

declare natDigits.simps [simp del]

definition sprintInt :: "int \<Rightarrow> string" where
  "sprintInt i = (if i < 0 then CHR ''-'' # natDigits (nat (- i)) else natDigits (nat i))"

text \<open>
  The query text handed to \<open>tx.Run\<close>: the local variable \<open>cy\<close> after the first
  statements of \<open>ExecCypher\<close>.
\<close>

definition cy :: "stringsLib \<Rightarrow> string \<Rightarrow> int \<Rightarrow> string" where
  "cy L cypher limit =
     (let t = TrimSpace L cypher
      in if limit > 0 \<and> \<not> Contains (ToLower L t) ''limit''
         then t @ [CHR 0x0A] @ ''LIMIT '' @ sprintInt limit
         else t)"

text \<open>
  A record of the driver: its keys and its values, position by position. \<open>rec.Get(k)\<close>
  gives the value at the first position whose key is \<open>k\<close>, and \<open>nil\<close> (\<open>None\<close>) when
  there is none.
\<close>

record 'v Record =
  Keys :: "string list"
  Values :: "'v list"

definition Get :: "'v Record \<Rightarrow> string \<Rightarrow> 'v option" where
  "Get r k = map_of (zip (Keys r) (Values r)) k"

text \<open>
  What \<open>tx.Run\<close> returns for a query text: an error, or a result stream. A stream is
  the finite list of records that \<open>res.Next\<close> delivers, followed by the error, if any,
  that ends it (\<open>res.Err()\<close> once \<open>Next\<close> has returned false).
\<close>

record 'v Stream =
  records :: "'v Record list"
  streamErr :: "error option"

text \<open>
  The \<open>for res.Next(ctx)\<close> loop. \<open>cols\<close> is \<open>None\<close> while the Go slice is \<open>nil\<close>
  (\<open>append([]string(nil), rec.Keys...)\<close> is still \<open>nil\<close> for a record without keys).
  The third component tells whether the loop ended because \<open>Next\<close> returned false
  (\<open>True\<close>) or by the \<open>break\<close> (\<open>False\<close>).
\<close>

fun collectRows ::
  "int \<Rightarrow> 'v Record list \<Rightarrow> string list option \<Rightarrow> 'v option list list
     \<Rightarrow> string list option \<times> 'v option list list \<times> bool" where
  "collectRows limit [] cols rows = (cols, rows, True)"
| "collectRows limit (r # rest) cols rows =
     (let cols' = (if cols = None then (if Keys r = [] then None else Some (Keys r)) else cols);
          row = map (Get r) (Keys r);
          rows' = rows @ [row]
      in if limit > 0 \<and> int (length rows') \<ge> limit then (cols', rows', False)
         else collectRows limit rest cols' rows')"

text \<open>
  \<open>ExecCypher\<close>, with the session's \<open>ExecuteRead\<close> taken as one invocation of the
  transaction function on the backend \<open>run\<close>. The result is the Go pair
  \<open>(ResultSet, error)\<close>.
\<close>

definition ExecCypher ::
  "stringsLib \<Rightarrow> (string \<Rightarrow> error + 'v Stream) \<Rightarrow> string \<Rightarrow> int \<Rightarrow> 'v option ResultSet \<times> error option" where
  "ExecCypher L run cypher limit =
     (case run (cy L cypher limit) of
        Inl err \<Rightarrow> (emptyResultSet, Some err)
      | Inr res \<Rightarrow>
          (case collectRows limit (records res) None [] of
             (cols, rows, exhausted) \<Rightarrow>
               (case (if exhausted then streamErr res else None) of
                  Some err \<Rightarrow> (emptyResultSet, Some err)
                | None \<Rightarrow>
                    (\<lparr>Columns = (case cols of None \<Rightarrow> [] | Some c \<Rightarrow> c), Rows = rows\<rparr>,
                     None))))"

text \<open>Example backends.\<close>

definition threeUsers :: "nat Stream" where
  "threeUsers =
     \<lparr>records =
        [\<lparr>Keys = [''name''], Values = [1]\<rparr>, \<lparr>Keys = [''name''], Values = [2]\<rparr>,
         \<lparr>Keys = [''name''], Values = [3]\<rparr>],
      streamErr = None\<rparr>"

definition echoBackend :: "string \<Rightarrow> error + nat Stream" where
  "echoBackend q = Inl (PlainError q)"

definition usersBackend :: "string \<Rightarrow> error + nat Stream" where
  "usersBackend q = Inr threeUsers"

section \<open>The worker pool: \<open>Run\<close>\<close>

record QueryJob =
  Index :: int
  ID :: string
  Name :: string
  Cypher :: string

record 'v QueryResult =
  ResultSet :: "'v ResultSet"
  Err :: "error option"
  Skipped :: bool
  SkipWhy :: string

record RunnerOpts =
  DB :: string
  Limit :: int
  Parallel :: int
  PerQueryTimeout :: int
  Retries :: int
  FailFast :: bool
  Verbose :: bool

text \<open>The zero value of \<open>QueryResult\<close>, which \<open>make([]QueryResult, len(jobs))\<close> fills \<open>out\<close> with.\<close>

definition zeroQueryResult :: "'v QueryResult" where
  "zeroQueryResult = \<lparr>ResultSet = emptyResultSet, Err = None, Skipped = False, SkipWhy = []\<rparr>"

text \<open>
  A worker goroutine is waiting in its \<open>select\<close> (\<open>Idle\<close>), is executing the job it
  received (\<open>Busy\<close>), has written a failed job's outcome under fail-fast and is about to
  call \<open>stop()\<close> (\<open>Stopping\<close>), or has returned (\<open>Exited\<close>).
\<close>

datatype worker = Idle | Busy QueryJob | Stopping | Exited

text \<open>
  The shared state of one call of \<open>Run\<close>: the jobs the producer goroutine has still to
  send (\<open>queue\<close>), whether it has returned and so closed \<open>jobsCh\<close>, whether \<open>stopCh\<close>
  is closed, the workers, and the slice \<open>out\<close>. \<open>executed\<close> is a log, not program
  state: every job that was executed, with the outcome its worker produced, in the
  order of completion. \<open>panicked\<close> records an index panic at \<open>out[job.Index]\<close>.
\<close>

record 'v pool =
  queue :: "QueryJob list"
  jobsClosed :: bool
  stopClosed :: bool
  workers :: "worker list"
  out :: "'v QueryResult list"
  executed :: "(QueryJob \<times> 'v QueryResult) list"
  panicked :: bool

text \<open>
  The moves of the goroutines that touch this state. \<open>Dispatch w\<close>: the producer's send
  on the unbuffered \<open>jobsCh\<close> meets worker \<open>w\<close>'s receive. \<open>Finish w env\<close>: worker \<open>w\<close>
  completes \<open>execWithRetries\<close> in the environment \<open>env\<close> (what \<open>exec\<close> and its job
  context do, attempt by attempt) and writes the outcome to \<open>out[job.Index]\<close>.
  \<open>Stop w\<close>: worker \<open>w\<close> calls \<open>stop()\<close>. \<open>Leave w\<close>: worker \<open>w\<close> returns from its
  loop. \<open>CloseJobs\<close>: the producer returns, closing \<open>jobsCh\<close>.
\<close>

datatype 'v action =
  Dispatch nat | Finish nat "int \<Rightarrow> 'v attempt" | Stop nat | Leave nat | CloseJobs

text \<open>The coercions at the head of \<open>Run\<close>.\<close>

definition coerce :: "RunnerOpts \<Rightarrow> RunnerOpts" where
  "coerce opts =
     (let o1 = (if Parallel opts < 1 then opts\<lparr>Parallel := 1\<rparr> else opts)
      in if Retries o1 < 0 then o1\<lparr>Retries := 0\<rparr> else o1)"

definition start :: "RunnerOpts \<Rightarrow> QueryJob list \<Rightarrow> 'v pool" where
  "start opts jobs =
     \<lparr>queue = jobs, jobsClosed = False, stopClosed = False,
      workers = replicate (nat (Parallel opts)) Idle,
      out = replicate (length jobs) zeroQueryResult,
      executed = [], panicked = False\<rparr>"

text \<open>
  One move; \<open>None\<close> when the move is not possible in the state. Once \<open>stopCh\<close> is
  closed no hand-over takes place: a hand-over on an unbuffered channel needs one side
  parked on \<open>jobsCh\<close>, a goroutine entering its \<open>select\<close> after the close finds the
  \<open>stopCh\<close> case ready and does not park, and one parked before is woken by the close.
\<close>

definition finishJob :: "stringsLib \<Rightarrow> RunnerOpts \<Rightarrow> nat \<Rightarrow> QueryJob \<Rightarrow> (int \<Rightarrow> 'v attempt) \<Rightarrow> 'v pool \<Rightarrow> 'v pool" where
  "finishJob L opts w job env s =
     (case fst (execWithRetries L env (Retries opts)) of
        (rs, err) \<Rightarrow>
          if 0 \<le> Index job \<and> Index job < int (length (out s)) then
            s\<lparr>out := (out s)[nat (Index job) :=
                       \<lparr>ResultSet = rs, Err = err, Skipped = False, SkipWhy = []\<rparr>],
              executed := executed s @
                       [(job, \<lparr>ResultSet = rs, Err = err, Skipped = False, SkipWhy = []\<rparr>)],
              workers := (workers s)[w := (if err \<noteq> None \<and> FailFast opts then Stopping else Idle)]\<rparr>
          else s\<lparr>panicked := True\<rparr>)"

fun step :: "stringsLib \<Rightarrow> RunnerOpts \<Rightarrow> 'v action \<Rightarrow> 'v pool \<Rightarrow> 'v pool option" where
  "step L opts (Dispatch w) s =
     (case queue s of
        [] \<Rightarrow> None
      | job # rest \<Rightarrow>
          if \<not> panicked s \<and> \<not> jobsClosed s \<and> \<not> stopClosed s
             \<and> w < length (workers s) \<and> workers s ! w = Idle
          then Some (s\<lparr>queue := rest, workers := (workers s)[w := Busy job]\<rparr>)
          else None)"
| "step L opts (Finish w env) s =
     (if \<not> panicked s \<and> w < length (workers s) then
        (case workers s ! w of
           Busy job \<Rightarrow> Some (finishJob L opts w job env s)
         | _ \<Rightarrow> None)
      else None)"
| "step L opts (Stop w) s =
     (if \<not> panicked s \<and> w < length (workers s) \<and> workers s ! w = Stopping
      then Some (s\<lparr>stopClosed := True, workers := (workers s)[w := Idle]\<rparr>)
      else None)"
| "step L opts (Leave w) s =
     (if \<not> panicked s \<and> w < length (workers s) \<and> workers s ! w = Idle
         \<and> (stopClosed s \<or> jobsClosed s)
      then Some (s\<lparr>workers := (workers s)[w := Exited]\<rparr>)
      else None)"
| "step L opts CloseJobs s =
     (if \<not> panicked s \<and> \<not> jobsClosed s \<and> (queue s = [] \<or> stopClosed s)
      then Some (s\<lparr>jobsClosed := True\<rparr>)
      else None)"

text \<open>A schedule is a list of moves; it is carried out from left to right.\<close>

fun steps :: "stringsLib \<Rightarrow> RunnerOpts \<Rightarrow> 'v action list \<Rightarrow> 'v pool \<Rightarrow> 'v pool option" where
  "steps L opts [] s = Some s"
| "steps L opts (a # as) s = (case step L opts a s of None \<Rightarrow> None | Some s' \<Rightarrow> steps L opts as s')"

text \<open>\<open>wg.Wait()\<close> returns when every worker has returned.\<close>

definition allExited :: "'v pool \<Rightarrow> bool" where
  "allExited s = list_all (\<lambda>w. w = Exited) (workers s)"

text \<open>
  \<open>Run\<close> under a schedule: the final state when the schedule is a possible execution
  that ends with every worker returned and no panic, and the slice returned then.
\<close>

definition RunState :: "stringsLib \<Rightarrow> RunnerOpts \<Rightarrow> QueryJob list \<Rightarrow> 'v action list \<Rightarrow> 'v pool option" where
  "RunState L opts jobs sched =
     (case steps L (coerce opts) sched (start (coerce opts) jobs) of
        None \<Rightarrow> None
      | Some s \<Rightarrow> if allExited s \<and> \<not> panicked s then Some s else None)"

definition Run :: "stringsLib \<Rightarrow> RunnerOpts \<Rightarrow> QueryJob list \<Rightarrow> 'v action list \<Rightarrow> 'v QueryResult list option" where
  "Run L opts jobs sched = map_option out (RunState L opts jobs sched)"



text \<open>
  Job lists whose \<open>Index\<close> fields are unique values in \<open>0 .. len(jobs)-1\<close>, and those
  where moreover the job at position \<open>i\<close> has \<open>Index = i\<close>, as \<open>main\<close> builds them.
\<close>

definition uniqueIndex :: "QueryJob list \<Rightarrow> bool" where
  "uniqueIndex jobs =
     (distinct (map Index jobs)
      \<and> list_all (\<lambda>j. 0 \<le> Index j \<and> Index j < int (length jobs)) jobs)"

definition denseIndex :: "QueryJob list \<Rightarrow> bool" where
  "denseIndex jobs = (map Index jobs = map int [0..<length jobs])"

text \<open>Example: five jobs, two workers, fail-fast.\<close>

definition jobNo :: "nat \<Rightarrow> QueryJob" where
  "jobNo i = \<lparr>Index = int i, ID = ''q'', Name = ''Q'', Cypher = ''RETURN 1''\<rparr>"

definition fiveJobs :: "QueryJob list" where
  "fiveJobs = map jobNo [0, 1, 2, 3, 4]"

definition failFastOpts :: RunnerOpts where
  "failFastOpts =
     \<lparr>DB = ''neo4j'', Limit = 0, Parallel = 2, PerQueryTimeout = 0, Retries = 1,
      FailFast = True, Verbose = True\<rparr>"

definition okEnv :: "int \<Rightarrow> nat attempt" where
  "okEnv i = \<lparr>result = Inr okRS, ctxErr = None, sleepCancel = None\<rparr>"

definition failFastSchedule :: "nat action list" where
  "failFastSchedule =
     [Dispatch 0, Dispatch 1, Finish 1 permanentEnv, Stop 1, Finish 0 okEnv, CloseJobs,
      Leave 0, Leave 1]"

text \<open>
  The invariant of the pool, for the job list \<open>jobs\<close> the call started with.
  \<open>sent\<close> is the number of jobs handed over so far.
\<close>

definition busyAt :: "'v pool \<Rightarrow> nat \<Rightarrow> QueryJob \<Rightarrow> bool" where
  "busyAt s w j = (w < length (workers s) \<and> workers s ! w = Busy j)"

definition sent :: "QueryJob list \<Rightarrow> 'v pool \<Rightarrow> nat" where
  "sent jobs s = length jobs - length (queue s)"

definition poolInv :: "RunnerOpts \<Rightarrow> QueryJob list \<Rightarrow> 'v pool \<Rightarrow> bool" where
  "poolInv opts jobs s =
     (\<not> panicked s \<and> length (out s) = length jobs
      \<and> length (queue s) \<le> length jobs \<and> queue s = drop (sent jobs s) jobs
      \<and> (\<forall>w j. busyAt s w j \<longrightarrow> j \<in> set (take (sent jobs s) jobs))
      \<and> (\<forall>w w' j. busyAt s w j \<and> busyAt s w' j \<longrightarrow> w = w')
      \<and> (\<forall>j r. (j, r) \<in> set (executed s) \<longrightarrow>
             j \<in> set (take (sent jobs s) jobs) \<and> (\<forall>w. \<not> busyAt s w j)
             \<and> out s ! nat (Index j) = r)
      \<and> (\<forall>j. j \<in> set (drop (sent jobs s) jobs) \<longrightarrow> out s ! nat (Index j) = zeroQueryResult)
      \<and> (\<forall>j. j \<in> set (take (sent jobs s) jobs) \<longrightarrow>
             (\<exists>w. busyAt s w j) \<or> j \<in> fst ` set (executed s))
      \<and> (stopClosed s \<longrightarrow> FailFast opts)
      \<and> (Stopping \<in> set (workers s) \<longrightarrow> FailFast opts)
      \<and> (jobsClosed s \<longrightarrow> queue s = [] \<or> stopClosed s))"



section \<open>Assembling the outputs in \<open>main\<close>\<close>

text \<open>
  A catalog entry. The fields \<open>ID\<close> and \<open>Cypher\<close> of the source are named \<open>QueryID\<close>
  and \<open>QueryCypher\<close> here, apart from the fields of the same names of \<open>QueryJob\<close>.
\<close>

record Query =
  QueryID :: string
  Title :: string
  Category :: string
  SheetName :: string
  Headers :: "string list"
  Description :: string
  FindingTitle :: string
  QueryCypher :: string
  ColumnKeys :: "string list"

text \<open>
  \<open>report.Output\<close>; its fields \<open>Skipped\<close> and \<open>SkipWhy\<close> are named \<open>OutSkipped\<close> and
  \<open>OutSkipWhy\<close>, apart from those of \<open>QueryResult\<close>.
\<close>

record 'v Output =
  Query :: Query
  Result :: "'v ResultSet"
  Error :: string
  OutSkipped :: bool
  OutSkipWhy :: string

text \<open>\<open>err.Error()\<close>: the text of an error.\<close>

fun ErrorString :: "error \<Rightarrow> string" where
  "ErrorString (Neo4jError cls m) = m"
| "ErrorString (PlainError m) = m"

definition zeroQuery :: Query where
  "zeroQuery =
     \<lparr>QueryID = [], Title = [], Category = [], SheetName = [], Headers = [], Description = [],
      FindingTitle = [], QueryCypher = [], ColumnKeys = []\<rparr>"

definition zeroOutput :: "'v Output" where
  "zeroOutput =
     \<lparr>Query = zeroQuery, Result = emptyResultSet, Error = [], OutSkipped = False,
      OutSkipWhy = []\<rparr>"

text \<open>The three struct literals of the fragment.\<close>

definition skippedOutput :: "stringsLib \<Rightarrow> Presence \<Rightarrow> Query \<Rightarrow> 'v Output" where
  "skippedOutput L presence q =
     \<lparr>Query = q, Result = emptyResultSet, Error = [], OutSkipped = True,
      OutSkipWhy = snd (CanRunCypher L (QueryCypher q) presence)\<rparr>"

definition jobOf :: "nat \<Rightarrow> Query \<Rightarrow> QueryJob" where
  "jobOf n q = \<lparr>Index = int n, ID = QueryID q, Name = SheetName q, Cypher = QueryCypher q\<rparr>"

definition resultOutput :: "Query \<Rightarrow> 'v QueryResult \<Rightarrow> 'v Output" where
  "resultOutput q r =
     \<lparr>Query = q, Result = ResultSet r,
      Error = (case Err r of None \<Rightarrow> [] | Some e \<Rightarrow> ErrorString e),
      OutSkipped = False, OutSkipWhy = []\<rparr>"

text \<open>
  The first loop of the fragment, \<open>for i, q := range qs\<close>, over the pairs \<open>(i, q)\<close>; the
  state is \<open>(outs, jobs, jobToQueryIdx)\<close>.
\<close>

fun planLoop ::
  "stringsLib \<Rightarrow> bool \<Rightarrow> Presence \<Rightarrow> (nat \<times> Query) list \<Rightarrow> 'v Output list \<times> QueryJob list \<times> nat list
     \<Rightarrow> 'v Output list \<times> QueryJob list \<times> nat list" where
  "planLoop L schemaSkip presence [] st = st"
| "planLoop L schemaSkip presence ((i, q) # rest) (outs, jobs, jobToQueryIdx) =
     (if schemaSkip \<and> \<not> fst (CanRunCypher L (QueryCypher q) presence) then
        planLoop L schemaSkip presence rest
          (outs[i := skippedOutput L presence q], jobs, jobToQueryIdx)
      else
        planLoop L schemaSkip presence rest
          (outs, jobs @ [jobOf (length jobs) q], jobToQueryIdx @ [i]))"

text \<open>
  The second loop, \<open>for j, r := range results\<close>; \<open>None\<close> is the index panic of
  \<open>jobToQueryIdx[j]\<close>, \<open>qs[i]\<close> or \<open>outs[i]\<close>.
\<close>

fun mergeLoop ::
  "Query list \<Rightarrow> nat list \<Rightarrow> (nat \<times> 'v QueryResult) list \<Rightarrow> 'v Output list
     \<Rightarrow> 'v Output list option" where
  "mergeLoop qs jobToQueryIdx [] outs = Some outs"
| "mergeLoop qs jobToQueryIdx ((j, r) # rest) outs =
     (if j < length jobToQueryIdx then
        (let i = jobToQueryIdx ! j
         in if i < length qs \<and> i < length outs then
              mergeLoop qs jobToQueryIdx rest (outs[i := resultOutput (qs ! i) r])
            else None)
      else None)"

text \<open>
  The fragment of \<open>main\<close> from \<open>outs := make(...)\<close> to the end of the merge loop. The
  call of \<open>neo4jrunner.Run\<close> in between is the parameter \<open>run\<close>.
\<close>

definition plan :: "stringsLib \<Rightarrow> bool \<Rightarrow> Presence \<Rightarrow> Query list \<Rightarrow> 'v Output list \<times> QueryJob list \<times> nat list" where
  "plan L schemaSkip presence qs =
     planLoop L schemaSkip presence (enumerate 0 qs) (replicate (length qs) zeroOutput, [], [])"

definition mainOutputs ::
  "stringsLib \<Rightarrow> bool \<Rightarrow> Presence \<Rightarrow> Query list \<Rightarrow> (QueryJob list \<Rightarrow> 'v QueryResult list)
     \<Rightarrow> 'v Output list option" where
  "mainOutputs L schemaSkip presence qs run =
     (case plan L schemaSkip presence qs of
        (outs, jobs, jobToQueryIdx) \<Rightarrow>
          mergeLoop qs jobToQueryIdx (enumerate 0 (run jobs)) outs)"

definition plannedJobs :: "stringsLib \<Rightarrow> bool \<Rightarrow> Presence \<Rightarrow> Query list \<Rightarrow> QueryJob list" where
  "plannedJobs L schemaSkip presence qs = fst (snd (plan L schemaSkip presence qs :: unit Output list \<times> QueryJob list \<times> nat list))"

definition skipped :: "stringsLib \<Rightarrow> bool \<Rightarrow> Presence \<Rightarrow> Query \<Rightarrow> bool" where
  "skipped L schemaSkip presence q = (schemaSkip \<and> \<not> fst (CanRunCypher L (QueryCypher q) presence))"

text \<open>Example catalog.\<close>

definition mkQuery :: "string \<Rightarrow> string \<Rightarrow> Query" where
  "mkQuery i c = zeroQuery\<lparr>QueryID := i, SheetName := i, QueryCypher := c\<rparr>"

definition catalog :: "Query list" where
  "catalog =
     [mkQuery ''users'' ''MATCH (u:User) RETURN u.name'',
      mkQuery ''members'' memberQuery,
      mkQuery ''groups'' ''MATCH (g:Group) RETURN g.name'']"

definition echoRun :: "QueryJob list \<Rightarrow> nat QueryResult list" where
  "echoRun jobs =
     map (\<lambda>j. \<lparr>ResultSet = \<lparr>Columns = [ID j], Rows = []\<rparr>, Err = None, Skipped = False,
               SkipWhy = []\<rparr>) jobs"

section \<open>Properties of the string helpers and the classifier\<close>




text \<open>
  On ASCII text neither \<open>strings.ToLower\<close> nor \<open>strings.TrimSpace\<close> reaches a Unicode
  routine.
\<close>

lemma ToLower_ASCII: "isASCII s \<Longrightarrow> ToLower L s = map toLowerChar s"
  by (simp add: ToLower_def)

lemma TrimSpace_ASCII:
  assumes "isASCII s"
  shows "TrimSpace L s = rev (dropWhile asciiSpace (rev (dropWhile asciiSpace s)))"
proof (cases "dropWhile asciiSpace s")
  case Nil
  show ?thesis unfolding TrimSpace_def Nil by simp
next
  case o: (Cons c cs)
  have sub: "set (c # cs) \<subseteq> set s"
    using set_dropWhileD [of _ asciiSpace s] o by auto
  have all: "\<forall>x \<in> set s. \<not> nonASCII x" using assms by (simp add: isASCII_def list_all_iff)
  have c: "\<not> nonASCII c" using sub all by auto
  show ?thesis
  proof (cases "dropWhile asciiSpace (rev (c # cs))")
    case Nil
    show ?thesis unfolding TrimSpace_def o list.case Nil using c by simp
  next
    case i: (Cons e es)
    have "e \<in> set (rev (c # cs))"
      using set_dropWhileD [of e asciiSpace "rev (c # cs)"] i by simp
    then have e: "\<not> nonASCII e" using sub all by auto
    show ?thesis unfolding TrimSpace_def o list.case i using c e by simp
  qed
qed




lemma refused_transient: "looksTransient exampleLib (PlainError ''dial tcp: connection refused'')"
  by code_simp

lemma broken_pipe_transient: "looksTransient exampleLib (PlainError ''read: broken pipe'')"
  by code_simp




section \<open>Properties of \<open>execWithRetries\<close>\<close>

lemma execLoop_retry_step:
  assumes "attempt \<le> retries" "transientFail L (env attempt)" "uncancelled (env attempt)"
  shows "execLoop L env retries attempt le =
     (case execLoop L env retries (attempt + 1) (errOf (env attempt)) of
        (r, evs) \<Rightarrow> (r, Exec attempt # Slept (200 * (attempt + 1)) # evs))"
  using assms
  by (subst execLoop.simps) (auto simp: transientFail_def uncancelled_def errOf_def split: sum.splits)

lemma execLoop_skip:
  assumes "\<forall>i. a \<le> i \<and> i < a + int n \<longrightarrow> transientFail L (env i) \<and> uncancelled (env i)"
    and "a + int n \<le> retries + 1"
  shows "execLoop L env retries a le =
     (case execLoop L env retries (a + int n) (if n = 0 then le else errOf (env (a + int n - 1))) of
        (r, evs) \<Rightarrow> (r, backoffTrace n a @ evs))"
  using assms
proof (induction n arbitrary: a le)
  case 0
  then show ?case by (auto split: prod.splits)
next
  case (Suc n)
  have 1: "a \<le> retries" "transientFail L (env a)" "uncancelled (env a)" using Suc.prems by auto
  have 2: "execLoop L env retries (a+1) (errOf (env a)) = (case execLoop L env retries (a + 1 + int n) (if n = 0 then errOf (env a) else errOf (env (a + 1 + int n - 1))) of (r, evs) \<Rightarrow> (r, backoffTrace n (a+1) @ evs))"
    apply (rule Suc.IH) using Suc.prems by auto
  have 3: "a + 1 + int n = a + int (Suc n)" by simp
  have 4: "(if n = 0 then errOf (env a) else errOf (env (a + 1 + int n - 1))) = errOf (env (a + int (Suc n) - 1))"
    by auto
  have 5: "execLoop L env retries a le = (case execLoop L env retries (a + 1) (errOf (env a)) of (r, evs) \<Rightarrow> (r, Exec a # Slept (200 * (a + 1)) # evs))"
    using 1 by (rule execLoop_retry_step)
  show ?case unfolding 5 2 3 4
    by (auto split: prod.splits)
qed

lemma execLoop_count:
  "length (filter isExec (snd (execLoop L env retries attempt le))) \<le> nat (retries + 1 - attempt)"
proof (induction L env retries attempt le rule: execLoop.induct)
  case (1 L env retries attempt lastErr)
  show ?case
    apply (subst execLoop.simps)
    using 1
    by (auto split: sum.splits option.splits prod.splits)
qed

lemma backoffTrace_snoc: "backoffTrace (Suc n) a = backoffTrace n a @ [Exec (a + int n), Slept (200 * (a + int n + 1))]"
proof (induction n arbitrary: a)
  case 0
  then show ?case by simp
next
  case (Suc n)
  have "backoffTrace (Suc (Suc n)) a = Exec a # Slept (200 * (a + 1)) # backoffTrace (Suc n) (a + 1)"
    by simp
  also have "\<dots> = Exec a # Slept (200 * (a + 1)) # (backoffTrace n (a + 1) @ [Exec (a + 1 + int n), Slept (200 * (a + 1 + int n + 1))])"
    by (simp only: Suc.IH)
  also have "\<dots> = backoffTrace (Suc n) a @ [Exec (a + int (Suc n)), Slept (200 * (a + int (Suc n) + 1))]"
    by (simp add: algebra_simps)
  finally show ?case .
qed

text \<open>
  C2 (as amended). For \<open>retries \<ge> 0\<close>, with attempts \<open>0 .. k-1\<close> failing with a
  transient error while the context is neither expired after any of them nor fires
  during their backoff sleeps, and \<open>k \<le> retries\<close>:
  (a) if attempt \<open>k\<close> succeeds, \<open>execWithRetries\<close> returns the result set of attempt
  \<open>k\<close> with a nil error, after exactly those \<open>k + 1\<close> calls;
  (b) whatever happens, \<open>exec\<close> is called at most \<open>retries + 1\<close> times;
  (c) if all attempts \<open>0 .. retries\<close> fail transiently and the context stays live
  throughout, the error of the last attempt is returned;
  (d) if attempt \<open>k\<close> fails with any error \<open>e\<close> and the context is found expired after
  it (\<open>ctx.Err()\<close> is \<open>c\<close>), the function returns \<open>c\<close>, not \<open>e\<close>, with an empty result
  set, and that call is the last event;
  (e) if attempt \<open>k\<close> fails transiently with the context not expired and \<open>ctx.Done()\<close>
  fires during the backoff sleep that follows, \<open>ctx.Err()\<close> then being \<open>c\<close>, the
  function returns \<open>c\<close> with an empty result set, and the interrupted sleep is the last
  event; no further call is made.
\<close>

theorem execWithRetries_retry_bound:
  assumes "0 \<le> retries"
  shows "(int k \<le> retries
            \<and> (\<forall>i. 0 \<le> i \<and> i < int k \<longrightarrow> transientFail L (env i) \<and> uncancelled (env i))
            \<and> result (env (int k)) = Inr rs
          \<longrightarrow> execWithRetries L env retries = ((rs, None), backoffTrace k 0 @ [Exec (int k)]))
       \<and> length (filter isExec (snd (execWithRetries L env retries))) \<le> nat (retries + 1)
       \<and> ((\<forall>i. 0 \<le> i \<and> i \<le> retries \<longrightarrow> transientFail L (env i) \<and> uncancelled (env i))
          \<longrightarrow> (\<exists>e. result (env retries) = Inl e
                 \<and> execWithRetries L env retries =
                     ((emptyResultSet, Some e), backoffTrace (nat (retries + 1)) 0)))
       \<and> (int k \<le> retries
            \<and> (\<forall>i. 0 \<le> i \<and> i < int k \<longrightarrow> transientFail L (env i) \<and> uncancelled (env i))
            \<and> result (env (int k)) = Inl e \<and> ctxErr (env (int k)) = Some c
          \<longrightarrow> execWithRetries L env retries =
                ((emptyResultSet, Some c), backoffTrace k 0 @ [Exec (int k)]))
       \<and> (int k \<le> retries
            \<and> (\<forall>i. 0 \<le> i \<and> i < int k \<longrightarrow> transientFail L (env i) \<and> uncancelled (env i))
            \<and> transientFail L (env (int k)) \<and> ctxErr (env (int k)) = None
            \<and> sleepCancel (env (int k)) = Some c
          \<longrightarrow> execWithRetries L env retries =
                ((emptyResultSet, Some c),
                 backoffTrace k 0 @ [Exec (int k), Interrupted (200 * (int k + 1))]))"
proof -
  let ?pre = "int k \<le> retries
            \<and> (\<forall>i. 0 \<le> i \<and> i < int k \<longrightarrow> transientFail L (env i) \<and> uncancelled (env i))"
  let ?le = "if k = 0 then None else errOf (env (0 + int k - 1))"
  have skip: "execLoop L env retries 0 None =
     (case execLoop L env retries (0 + int k) ?le of (r, evs) \<Rightarrow> (r, backoffTrace k 0 @ evs))"
    if h: ?pre
  proof -
    have a: "\<forall>i. 0 \<le> i \<and> i < 0 + int k \<longrightarrow> transientFail L (env i) \<and> uncancelled (env i)"
      using h by simp
    have b: "0 + int k \<le> retries + 1" using h by simp
    show ?thesis by (rule execLoop_skip[OF a b])
  qed
  have A: "execWithRetries L env retries = ((rs, None), backoffTrace k 0 @ [Exec (int k)])"
    if h: "?pre \<and> result (env (int k)) = Inr rs"
  proof -
    have pre: ?pre using h by blast
    have fin: "execLoop L env retries (0 + int k) ?le = ((rs, None), [Exec (int k)])"
      using h by (subst execLoop.simps) simp
    show ?thesis
      unfolding execWithRetries_def by (simp only: skip[OF pre] fin prod.case)
  qed
  have B: "length (filter isExec (snd (execWithRetries L env retries))) \<le> nat (retries + 1)"
    using execLoop_count[of L env retries 0 None] by (simp add: execWithRetries_def)
  have C: "\<exists>e. result (env retries) = Inl e
                 \<and> execWithRetries L env retries =
                     ((emptyResultSet, Some e), backoffTrace (nat (retries + 1)) 0)"
    if h: "\<forall>i. 0 \<le> i \<and> i \<le> retries \<longrightarrow> transientFail L (env i) \<and> uncancelled (env i)"
  proof -
    define n where "n = nat (retries + 1)"
    have n: "int n = retries + 1" "n \<noteq> 0" using assms by (auto simp: n_def)
    have a: "\<forall>i. 0 \<le> i \<and> i < 0 + int n \<longrightarrow> transientFail L (env i) \<and> uncancelled (env i)"
      using h n by simp
    have b: "0 + int n \<le> retries + 1" using n by simp
    have skipn: "execLoop L env retries 0 None =
       (case execLoop L env retries (0 + int n) (if n = 0 then None else errOf (env (0 + int n - 1))) of
          (r, evs) \<Rightarrow> (r, backoffTrace n 0 @ evs))"
      by (rule execLoop_skip[OF a b])
    have "transientFail L (env retries)" using h assms by simp
    then obtain e where e: "result (env retries) = Inl e"
      by (auto simp: transientFail_def split: sum.splits)
    have le: "(if n = 0 then None else errOf (env (0 + int n - 1))) = Some e"
      using n e by (simp add: errOf_def)
    have fin: "execLoop L env retries (0 + int n) (Some e) = ((emptyResultSet, Some e), [])"
      using n by (subst execLoop.simps) simp
    have "execWithRetries L env retries = ((emptyResultSet, Some e), backoffTrace n 0)"
      unfolding execWithRetries_def by (simp only: skipn le fin prod.case append_Nil2)
    then show ?thesis using e n_def by blast
  qed
  have D: "execWithRetries L env retries =
                ((emptyResultSet, Some c), backoffTrace k 0 @ [Exec (int k)])"
    if h: "?pre \<and> result (env (int k)) = Inl e \<and> ctxErr (env (int k)) = Some c"
  proof -
    have pre: ?pre using h by blast
    have fin: "execLoop L env retries (0 + int k) ?le = ((emptyResultSet, Some c), [Exec (int k)])"
      using h by (subst execLoop.simps) simp
    show ?thesis
      unfolding execWithRetries_def by (simp only: skip[OF pre] fin prod.case)
  qed
  have E: "execWithRetries L env retries =
                ((emptyResultSet, Some c),
                 backoffTrace k 0 @ [Exec (int k), Interrupted (200 * (int k + 1))])"
    if h: "?pre \<and> transientFail L (env (int k)) \<and> ctxErr (env (int k)) = None
            \<and> sleepCancel (env (int k)) = Some c"
  proof -
    have pre: ?pre using h by blast
    obtain e' where e': "result (env (int k)) = Inl e'" "looksTransient L e'"
      using h by (auto simp: transientFail_def split: sum.splits)
    have fin: "execLoop L env retries (0 + int k) ?le =
        ((emptyResultSet, Some c), [Exec (int k), Interrupted (200 * (int k + 1))])"
      using h e' by (subst execLoop.simps) simp
    show ?thesis
      unfolding execWithRetries_def by (simp only: skip[OF pre] fin prod.case)
  qed
  show ?thesis using A B C D E by blast
qed

theorem execWithRetries_retry_bound_witness:
  "execWithRetries exampleLib flakyEnv 3 =
     ((okRS, None), [Exec 0, Slept 200, Exec 1, Slept 400, Exec 2])
   \<and> length (filter isExec (snd (execWithRetries exampleLib flakyEnv 3))) \<le> 4
   \<and> execWithRetries exampleLib downEnv 1 =
       ((emptyResultSet, Some (PlainError ''dial tcp: connection refused'')),
        [Exec 0, Slept 200, Exec 1, Slept 400])
   \<and> execWithRetries exampleLib deadlineEnv 1 =
       ((emptyResultSet, Some (PlainError ''context deadline exceeded'')), [Exec 0])
   \<and> execWithRetries exampleLib cancelledSleepEnv 1 =
       ((emptyResultSet, Some (PlainError ''context canceled'')),
        [Exec 0, Slept 200, Exec 1, Interrupted 400])"
proof -
  have r3: "(0::int) \<le> 3" and r1: "(0::int) \<le> 1" by simp_all
  have h1: "int 2 \<le> 3
            \<and> (\<forall>i. 0 \<le> i \<and> i < int 2 \<longrightarrow>
                   transientFail exampleLib (flakyEnv i) \<and> uncancelled (flakyEnv i))
            \<and> result (flakyEnv (int 2)) = Inr okRS"
    by (simp add: flakyEnv_def transientFail_def uncancelled_def refused_transient del: looksTransient.simps)
  have h3: "\<forall>i. 0 \<le> i \<and> i \<le> 1 \<longrightarrow>
               transientFail exampleLib (downEnv i) \<and> uncancelled (downEnv i)"
    by (simp add: downEnv_def transientFail_def uncancelled_def refused_transient del: looksTransient.simps)
  have h4: "int 0 \<le> 1
            \<and> (\<forall>i. 0 \<le> i \<and> i < int 0 \<longrightarrow>
                   transientFail exampleLib (deadlineEnv i) \<and> uncancelled (deadlineEnv i))
            \<and> result (deadlineEnv (int 0)) = Inl (PlainError ''dial tcp: connection refused'')
            \<and> ctxErr (deadlineEnv (int 0)) = Some (PlainError ''context deadline exceeded'')"
    by (auto simp: deadlineEnv_def)
  have h5: "int 1 \<le> 1
            \<and> (\<forall>i. 0 \<le> i \<and> i < int 1 \<longrightarrow>
                   transientFail exampleLib (cancelledSleepEnv i) \<and> uncancelled (cancelledSleepEnv i))
            \<and> transientFail exampleLib (cancelledSleepEnv (int 1))
            \<and> ctxErr (cancelledSleepEnv (int 1)) = None
            \<and> sleepCancel (cancelledSleepEnv (int 1)) = Some (PlainError ''context canceled'')"
    by (simp add: cancelledSleepEnv_def transientFail_def uncancelled_def refused_transient
          broken_pipe_transient del: looksTransient.simps)
  have two: "backoffTrace 2 0 = [Exec 0, Slept 200, Exec 1, Slept 400]"
    by (simp add: numeral_2_eq_2)
  have one: "backoffTrace 1 0 = [Exec 0, Slept 200]" by simp
  have n2: "nat (1 + 1) = 2" by simp
  note a = execWithRetries_retry_bound [OF r3, of 2 exampleLib flakyEnv okRS]
  note b = execWithRetries_retry_bound [OF r1, of 0 exampleLib downEnv okRS]
  note d = execWithRetries_retry_bound [OF r1, of 0 exampleLib deadlineEnv okRS
      "PlainError ''dial tcp: connection refused''" "PlainError ''context deadline exceeded''"]
  note e = execWithRetries_retry_bound [OF r1, of 1 exampleLib cancelledSleepEnv okRS
      "PlainError ''read: broken pipe''" "PlainError ''context canceled''"]
  have A: "execWithRetries exampleLib flakyEnv 3 = ((okRS, None), backoffTrace 2 0 @ [Exec (int 2)])"
    using a h1 by blast
  have B: "length (filter isExec (snd (execWithRetries exampleLib flakyEnv 3))) \<le> nat (3 + 1)"
    using a by blast
  have C: "\<exists>e. result (downEnv 1) = Inl e
         \<and> execWithRetries exampleLib downEnv 1 = ((emptyResultSet, Some e), backoffTrace (nat (1 + 1)) 0)"
    using b h3 by blast
  have C': "execWithRetries exampleLib downEnv 1 =
       ((emptyResultSet, Some (PlainError ''dial tcp: connection refused'')), backoffTrace 2 0)"
    using C unfolding n2 by (auto simp: downEnv_def)
  have D: "execWithRetries exampleLib deadlineEnv 1 =
       ((emptyResultSet, Some (PlainError ''context deadline exceeded'')),
        backoffTrace 0 0 @ [Exec (int 0)])"
    using d h4 by blast
  have E: "execWithRetries exampleLib cancelledSleepEnv 1 =
       ((emptyResultSet, Some (PlainError ''context canceled'')),
        backoffTrace 1 0 @ [Exec (int 1), Interrupted (200 * (int 1 + 1))])"
    using e h5 by blast
  show ?thesis using A B C' D E unfolding two one by simp
qed

text \<open>
  C2 as stated fails. With \<open>retries = 1\<close>, an \<open>exec\<close> that fails once with the
  transient error \<open>connection refused\<close> and would succeed on the next call, and a
  context whose deadline has passed by the time the first call returns, the function
  returns the context's error after one call instead of the successful result. And
  with \<open>retries = 1\<close>, both attempts failing transiently and the context cancelled
  during the backoff sleep that follows the last attempt, it returns the context's
  error instead of the last observed error \<open>broken pipe\<close>.
\<close>

theorem execWithRetries_cancel_counterexample:
  "transientFail exampleLib (deadlineEnv 0) \<and> result (deadlineEnv 1) = Inr okRS
   \<and> execWithRetries exampleLib deadlineEnv 1 =
       ((emptyResultSet, Some (PlainError ''context deadline exceeded'')), [Exec 0])
   \<and> fst (execWithRetries exampleLib deadlineEnv 1) \<noteq> (okRS, None)
   \<and> transientFail exampleLib (cancelledSleepEnv 0) \<and> transientFail exampleLib (cancelledSleepEnv 1)
   \<and> errOf (cancelledSleepEnv 1) = Some (PlainError ''read: broken pipe'')
   \<and> execWithRetries exampleLib cancelledSleepEnv 1 =
       ((emptyResultSet, Some (PlainError ''context canceled'')),
        [Exec 0, Slept 200, Exec 1, Interrupted 400])"
  by code_simp

text \<open>
  C7. If the first call of \<open>exec\<close> fails with an error that \<open>looksTransient\<close> does not
  find transient (with the lowering of \<open>strings.ToLower\<close>, Unicode case mapping
  included) while the context is not expired, then for every \<open>retries \<ge> 0\<close>
  \<open>execWithRetries\<close> returns that error with an empty result set, and its whole trace
  is that one call: no retry and no backoff sleep.
\<close>

theorem execWithRetries_permanent_error:
  assumes "0 \<le> retries" "result (env 0) = Inl e" "\<not> looksTransient L e" "ctxErr (env 0) = None"
  shows "execWithRetries L env retries = ((emptyResultSet, Some e), [Exec 0])"
  unfolding execWithRetries_def using assms by (subst execLoop.simps) simp

theorem execWithRetries_permanent_error_witness:
  "(0::int) \<le> 5 \<and> result (permanentEnv 0) = Inl (Neo4jError ''ClientError'' ''invalid syntax'')
   \<and> \<not> looksTransient exampleLib (Neo4jError ''ClientError'' ''invalid syntax'') \<and> ctxErr (permanentEnv 0) = None
   \<and> execWithRetries exampleLib permanentEnv 5 = ((emptyResultSet, Some (Neo4jError ''ClientError'' ''invalid syntax'')), [Exec 0])"
proof -
  have h1: "(0::int) \<le> 5" by simp
  have h2: "result (permanentEnv 0) = Inl (Neo4jError ''ClientError'' ''invalid syntax'')" by (simp add: permanentEnv_def)
  have h3: "\<not> looksTransient exampleLib (Neo4jError ''ClientError'' ''invalid syntax'')" by simp
  have h4: "ctxErr (permanentEnv 0) = None" by (simp add: permanentEnv_def)
  show ?thesis using h1 h2 h3 h4 execWithRetries_permanent_error [of 5 permanentEnv "Neo4jError ''ClientError'' ''invalid syntax''" exampleLib] by simp
qed

text \<open>
  C8. Let attempts \<open>0 .. n-1\<close> fail transiently with the context live and their sleeps
  run to the end, and let attempt \<open>n \<le> retries\<close> (the \<open>(n+1)\<close>-th call) fail
  transiently with the context not expired. Then the trace so far is call, sleep of
  200 ms, call, sleep of 400 ms, and so on, and after call \<open>n\<close> a timer of
  \<open>200 * (n + 1)\<close> ms is started. If the context fires before the timer, the function
  returns the context's error at once, with nothing after the interrupted sleep;
  otherwise the sleep completes and, when \<open>n < retries\<close>, the next event is call
  \<open>n + 1\<close>.
\<close>

theorem execWithRetries_backoff:
  assumes "int n \<le> retries"
    and "\<forall>i. 0 \<le> i \<and> i < int n \<longrightarrow> transientFail L (env i) \<and> uncancelled (env i)"
    and "transientFail L (env (int n))" and "ctxErr (env (int n)) = None"
  shows "case sleepCancel (env (int n)) of
           Some c \<Rightarrow> execWithRetries L env retries =
             ((emptyResultSet, Some c), backoffTrace n 0 @ [Exec (int n), Interrupted (200 * (int n + 1))])
         | None \<Rightarrow> (\<exists>r evs. execWithRetries L env retries =
               (r, backoffTrace n 0 @ [Exec (int n), Slept (200 * (int n + 1))] @ evs)
             \<and> (int n < retries \<longrightarrow> (\<exists>evs'. evs = Exec (int n + 1) # evs')))"
proof -
  let ?le = "if n = 0 then None else errOf (env (int n - 1))"
  have skip: "execLoop L env retries 0 None =
     (case execLoop L env retries (0 + int n) (if n = 0 then None else errOf (env (0 + int n - 1))) of
        (r, evs) \<Rightarrow> (r, backoffTrace n 0 @ evs))"
  proof -
    have a: "\<forall>i. 0 \<le> i \<and> i < 0 + int n \<longrightarrow> transientFail L (env i) \<and> uncancelled (env i)"
      using assms(2) by simp
    have b: "0 + int n \<le> retries + 1" using assms(1) by simp
    show ?thesis by (rule execLoop_skip[OF a b])
  qed
  have skip': "execWithRetries L env retries =
     (case execLoop L env retries (int n) ?le of (r, evs) \<Rightarrow> (r, backoffTrace n 0 @ evs))"
    unfolding execWithRetries_def by (subst skip) (simp only: add_0)
  obtain e where e: "result (env (int n)) = Inl e" "looksTransient L e"
    using assms(3) by (auto simp: transientFail_def split: sum.splits)
  show ?thesis
  proof (cases "sleepCancel (env (int n))")
    case (Some c)
    have "execLoop L env retries (int n) ?le =
        ((emptyResultSet, Some c), [Exec (int n), Interrupted (200 * (int n + 1))])"
      using assms(1,4) e Some by (subst execLoop.simps) simp
    then have "execWithRetries L env retries =
        ((emptyResultSet, Some c), backoffTrace n 0 @ [Exec (int n), Interrupted (200 * (int n + 1))])"
      by (simp only: skip' prod.case)
    then show ?thesis using Some by simp
  next
    case None
    obtain r evs where rec: "execLoop L env retries (int n + 1) (Some e) = (r, evs)"
      by (cases "execLoop L env retries (int n + 1) (Some e)")
    have 1: "execLoop L env retries (int n) ?le = (r, Exec (int n) # Slept (200 * (int n + 1)) # evs)"
      using assms(1,4) e None rec by (subst execLoop.simps) simp
    have 2: "int n < retries \<longrightarrow> (\<exists>evs'. evs = Exec (int n + 1) # evs')"
    proof
      assume "int n < retries"
      then have le: "int n + 1 \<le> retries" by simp
      show "\<exists>evs'. evs = Exec (int n + 1) # evs'"
        using rec le by (subst (asm) execLoop.simps) (auto split: sum.splits option.splits if_splits prod.splits)
    qed
    have "execWithRetries L env retries =
        (r, backoffTrace n 0 @ [Exec (int n), Slept (200 * (int n + 1))] @ evs)"
      by (simp only: skip' 1 prod.case append.simps)
    then show ?thesis using None 2 by simp
  qed
qed

theorem execWithRetries_backoff_witness:
  "execWithRetries exampleLib cancelledSleepEnv 5 =
     ((emptyResultSet, Some (PlainError ''context canceled'')),
      [Exec 0, Slept 200, Exec 1, Interrupted 400])
   \<and> (\<exists>r evs'. execWithRetries exampleLib flakyEnv 3 = (r, [Exec 0, Slept 200, Exec 1, Slept 400, Exec 2] @ evs'))"
proof -
  have one: "backoffTrace 1 0 = [Exec 0, Slept 200]" by simp
  have c1: "int 1 \<le> 5" by simp
  have c2: "\<forall>i. 0 \<le> i \<and> i < int 1 \<longrightarrow>
               transientFail exampleLib (cancelledSleepEnv i) \<and> uncancelled (cancelledSleepEnv i)"
    by (simp add: cancelledSleepEnv_def transientFail_def uncancelled_def refused_transient del: looksTransient.simps)
  have c3: "transientFail exampleLib (cancelledSleepEnv (int 1))"
    by (simp add: cancelledSleepEnv_def transientFail_def broken_pipe_transient del: looksTransient.simps)
  have c4: "ctxErr (cancelledSleepEnv (int 1)) = None"
    by (simp add: cancelledSleepEnv_def)
  have c5: "sleepCancel (cancelledSleepEnv (int 1)) = Some (PlainError ''context canceled'')"
    by (simp add: cancelledSleepEnv_def)
  have A: "execWithRetries exampleLib cancelledSleepEnv 5 =
     ((emptyResultSet, Some (PlainError ''context canceled'')),
      [Exec 0, Slept 200, Exec 1, Interrupted 400])"
    using execWithRetries_backoff [OF c1 c2 c3 c4] unfolding c5 one by simp
  have f1: "int 1 \<le> 3" by simp
  have f2: "\<forall>i. 0 \<le> i \<and> i < int 1 \<longrightarrow> transientFail exampleLib (flakyEnv i) \<and> uncancelled (flakyEnv i)"
    by (simp add: flakyEnv_def transientFail_def uncancelled_def refused_transient del: looksTransient.simps)
  have f3: "transientFail exampleLib (flakyEnv (int 1))"
    by (simp add: flakyEnv_def transientFail_def refused_transient del: looksTransient.simps)
  have f4: "ctxErr (flakyEnv (int 1)) = None"
    by (simp add: flakyEnv_def)
  have f5: "sleepCancel (flakyEnv (int 1)) = None"
    by (simp add: flakyEnv_def)
  have B: "\<exists>r evs'. execWithRetries exampleLib flakyEnv 3 = (r, [Exec 0, Slept 200, Exec 1, Slept 400, Exec 2] @ evs')"
    using execWithRetries_backoff [OF f1 f2 f3 f4] unfolding f5 one by auto
  show ?thesis using A B by blast
qed

section \<open>Properties of \<open>CanRunCypher\<close>\<close>

text \<open>
  A capture group of either regular expression is a non-empty run of the characters
  \<open>[A-Za-z0-9_]\<close>, hence ASCII, and its lower-cased form is not empty: the test
  \<open>l == ""\<close> of the loops never holds.
\<close>

lemma isIdentChar_ASCII: "isIdentChar c \<Longrightarrow> \<not> nonASCII c"
  by (auto simp: isIdentChar_def nonASCII_def Let_def)

lemma takeWhile_ident_ASCII: "isASCII (takeWhile isIdentChar cs)"
  unfolding isASCII_def list_all_iff using isIdentChar_ASCII by (auto dest: set_takeWhileD)

lemma reLabelFindAll_token:
  "m \<in> set (reLabelFindAll cypher) \<Longrightarrow> m \<noteq> [] \<and> isASCII m"
  by (induction cypher rule: reLabelFindAll.induct)
     (auto simp: takeWhile_ident_ASCII split: if_splits)

lemma reRelFindAll_token:
  "m \<in> set (reRelFindAll cypher) \<Longrightarrow> m \<noteq> [] \<and> isASCII m"
  by (induction cypher rule: reRelFindAll.induct)
     (auto simp: takeWhile_ident_ASCII split: if_splits)

lemma ToLower_token_Nil: "m \<noteq> [] \<and> isASCII m \<Longrightarrow> ToLower L m \<noteq> []"
  by (simp add: ToLower_ASCII)

lemma labelsLoop_find:
  "\<forall>m \<in> set ms. m \<noteq> [] \<and> isASCII m \<Longrightarrow>
   labelsLoop L ms p =
     map_option (\<lambda>m. (False, ''missing label: '' @ m)) (find (\<lambda>m. ToLower L m \<notin> Labels p) ms)"
  by (induction ms) (auto simp: ToLower_token_Nil Let_def)

lemma relsLoop_find:
  "\<forall>m \<in> set ms. m \<noteq> [] \<and> isASCII m \<Longrightarrow>
   relsLoop L ms p =
     map_option (\<lambda>m. (False, ''missing relationship type: '' @ m))
       (find (\<lambda>m. ToLower L m \<notin> Rels p) ms)"
  by (induction ms) (auto simp: ToLower_token_Nil Let_def)

text \<open>
  C6 (as amended). \<open>CanRunCypher\<close> first checks the matches of \<open>reLabel\<close> in the order
  they occur in the text, each lower-cased against \<open>Labels\<close>, then the matches of
  \<open>reRel\<close> in the order they occur, each lower-cased against \<open>Rels\<close>. If a match of
  \<open>reLabel\<close> is missing, the result is not-runnable with the reason
  \<open>missing label: X\<close> for the first such match \<open>X\<close>; otherwise, if a match of \<open>reRel\<close>
  is missing, it is not-runnable with \<open>missing relationship type: X\<close> for the first
  such match; otherwise it is runnable with the empty reason. The presence index is an
  argument that is only read.
\<close>

theorem CanRunCypher_first_missing:
  "CanRunCypher L cypher p =
     (case find (\<lambda>m. ToLower L m \<notin> Labels p) (reLabelFindAll cypher) of
        Some m \<Rightarrow> (False, ''missing label: '' @ m)
      | None \<Rightarrow>
          (case find (\<lambda>m. ToLower L m \<notin> Rels p) (reRelFindAll cypher) of
             Some m \<Rightarrow> (False, ''missing relationship type: '' @ m)
           | None \<Rightarrow> (True, [])))"
proof -
  have l: "labelsLoop L (reLabelFindAll cypher) p =
      map_option (\<lambda>m. (False, ''missing label: '' @ m))
        (find (\<lambda>m. ToLower L m \<notin> Labels p) (reLabelFindAll cypher))"
    by (rule labelsLoop_find) (simp add: reLabelFindAll_token)
  have r: "relsLoop L (reRelFindAll cypher) p =
      map_option (\<lambda>m. (False, ''missing relationship type: '' @ m))
        (find (\<lambda>m. ToLower L m \<notin> Rels p) (reRelFindAll cypher))"
    by (rule relsLoop_find) (simp add: reRelFindAll_token)
  show ?thesis unfolding CanRunCypher_def l r by (simp split: option.splits)
qed

lemma memberQuery_labels: "reLabelFindAll memberQuery = [''User'', ''MemberOf'', ''Group'']"
  by code_simp

lemma memberQuery_rels: "reRelFindAll memberQuery = [''MemberOf'']"
  by code_simp

theorem CanRunCypher_first_missing_witness:
  "CanRunCypher exampleLib memberQuery fullPresence = (True, [])
   \<and> CanRunCypher exampleLib memberQuery \<lparr>Labels = {''user'', ''memberof''}, Rels = {}\<rparr> = (False, ''missing label: Group'')"
proof -
  have lo: "ToLower exampleLib ''User'' = ''user''" "ToLower exampleLib ''MemberOf'' = ''memberof''" "ToLower exampleLib ''Group'' = ''group''"
    by code_simp+
  have a: "CanRunCypher exampleLib memberQuery fullPresence = (True, [])"
    using CanRunCypher_first_missing [of exampleLib memberQuery fullPresence]
    unfolding memberQuery_labels memberQuery_rels
    by (simp add: fullPresence_def lo)
  have b: "CanRunCypher exampleLib memberQuery \<lparr>Labels = {''user'', ''memberof''}, Rels = {}\<rparr> = (False, ''missing label: Group'')"
    using CanRunCypher_first_missing [of exampleLib memberQuery "\<lparr>Labels = {''user'', ''memberof''}, Rels = {}\<rparr>"]
    unfolding memberQuery_labels memberQuery_rels
    by (simp add: lo)
  show ?thesis using a b by blast
qed

text \<open>
  C6 as stated fails. In \<open>MATCH (o:User)-[:Contains]->(c:Computer) RETURN c.name\<close> the
  relationship type \<open>Contains\<close> is not among the known relationship types and stands
  before \<open>Computer\<close> in the text, yet the reason names \<open>Computer\<close>: the label pass is
  completed before the relationship pass starts.
\<close>

theorem CanRunCypher_order_counterexample:
  "reLabelFindAll containsQuery = [''User'', ''Contains'', ''Computer'']
   \<and> reRelFindAll containsQuery = [''Contains'']
   \<and> ToLower exampleLib ''Contains'' \<notin> Rels mixedPresence
   \<and> CanRunCypher exampleLib containsQuery mixedPresence = (False, ''missing label: Computer'')"
  by code_simp

text \<open>
  Every match of \<open>reRel\<close> is also a match of \<open>reLabel\<close>, so a query that references a
  relationship type whose lower-cased name is not a known label is rejected in the
  label pass.
\<close>

lemma reRelFindAll_skip_ident: "reRelFindAll (dropWhile isIdentChar cs) = reRelFindAll cs"
proof (induction cs rule: reRelFindAll.induct)
  case 1
  then show ?case by simp
next
  case (2 c)
  then show ?case by simp
next
  case (3 c d cs)
  show ?case
  proof (cases "isIdentChar c")
    case True
    then have "c \<noteq> CHR ''[''" by (auto simp: isIdentChar_def)
    then show ?thesis using True 3 by simp
  next
    case False
    then show ?thesis by simp
  qed
qed

lemma reRel_subset_reLabel: "set (reRelFindAll cypher) \<subseteq> set (reLabelFindAll cypher)"
proof (induction cypher rule: reLabelFindAll.induct)
  case 1
  then show ?case by simp
next
  case (2 c cs)
  show ?case
  proof (cases "c = CHR '':'' \<and> takeWhile isIdentChar cs \<noteq> []")
    case True
    have "reRelFindAll (c # cs) = reRelFindAll cs"
      using True by (cases cs) auto
    also have "\<dots> = reRelFindAll (dropWhile isIdentChar cs)"
      by (simp add: reRelFindAll_skip_ident)
    finally show ?thesis using True 2(1) by auto
  next
    case False
    note IH = 2(2) [OF False]
    show ?thesis
    proof (cases cs)
      case Nil
      then show ?thesis by simp
    next
      case (Cons d cs')
      show ?thesis
      proof (cases "c = CHR ''['' \<and> d = CHR '':'' \<and> takeWhile isIdentChar cs' \<noteq> []")
        case True
        have r: "reRelFindAll (c # cs) = takeWhile isIdentChar cs' # reRelFindAll (dropWhile isIdentChar cs')"
          using True Cons by simp
        have l: "reLabelFindAll (c # cs) = takeWhile isIdentChar cs' # reLabelFindAll (dropWhile isIdentChar cs')"
          using True Cons by simp
        have "reRelFindAll cs = reRelFindAll cs'" using True Cons by (cases cs') auto
        then have "reRelFindAll (dropWhile isIdentChar cs') = reRelFindAll cs"
          by (simp add: reRelFindAll_skip_ident)
        moreover have "reLabelFindAll cs = takeWhile isIdentChar cs' # reLabelFindAll (dropWhile isIdentChar cs')"
          using True Cons by simp
        ultimately show ?thesis using IH r l by auto
      next
        case F2: False
        then have "reRelFindAll (c # cs) = reRelFindAll cs" using Cons by auto
        then show ?thesis using IH False by auto
      qed
    qed
  qed
qed

lemma labelsLoop_None:
  "labelsLoop L ms p = None \<Longrightarrow> m \<in> set ms \<Longrightarrow> m \<noteq> [] \<and> isASCII m \<Longrightarrow> ToLower L m \<in> Labels p"
  by (induction ms) (auto simp: Let_def ToLower_ASCII split: if_splits)

lemma labelsLoop_Some: "labelsLoop L ms p = Some r \<Longrightarrow> \<exists>x \<in> set ms. r = (False, ''missing label: '' @ x)"
  by (induction ms) (auto simp: Let_def split: if_splits)

lemma relationship_needs_label:
  assumes "r \<in> set (reRelFindAll cypher)" "ToLower L r \<notin> Labels p"
  shows "\<exists>x \<in> set (reLabelFindAll cypher). CanRunCypher L cypher p = (False, ''missing label: '' @ x)"
proof (cases "labelsLoop L (reLabelFindAll cypher) p")
  case None
  have "r \<in> set (reLabelFindAll cypher)" using assms(1) reRel_subset_reLabel by blast
  then have "ToLower L r \<in> Labels p"
    using labelsLoop_None [OF None] reLabelFindAll_token by blast
  then show ?thesis using assms(2) by simp
next
  case (Some res)
  then show ?thesis using labelsLoop_Some [OF Some] by (auto simp: CanRunCypher_def)
qed

text \<open>
  C4. The claim is that a relationship type referenced only as \<open>[:R\<close>, with \<open>R\<close> among
  the known relationship types, never yields \<open>missing label: R\<close>. On the catalog-style
  query \<open>MATCH (u:User)-[:MemberOf*1..]->(g:Group) RETURN u.name\<close>, with \<open>memberof\<close> a
  known relationship type and \<open>user\<close>, \<open>group\<close> known labels, \<open>CanRunCypher\<close> returns
  exactly that reason: \<open>reLabel\<close> also matches the \<open>:MemberOf\<close> inside \<open>[:MemberOf\<close>.
\<close>

theorem CanRunCypher_relationship_as_label:
  "reRelFindAll memberQuery = [''MemberOf'']
   \<and> ToLower exampleLib ''MemberOf'' \<in> Rels adPresence
   \<and> CanRunCypher exampleLib memberQuery adPresence = (False, ''missing label: MemberOf'')"
  by code_simp

section \<open>Properties of \<open>ExecCypher\<close>\<close>

lemma collectRows_length:
  "collectRows limit rs cols rows = (cols', rows', ex) \<Longrightarrow> 0 < limit \<Longrightarrow> int (length rows) < limit
   \<Longrightarrow> int (length rows') \<le> limit"
proof (induction rs arbitrary: cols rows)
  case Nil
  then show ?case by simp
next
  case (Cons r rs)
  show ?case
  proof (cases "int (length (rows @ [map (Get r) (Keys r)])) \<ge> limit")
    case True
    then have "rows' = rows @ [map (Get r) (Keys r)]" using Cons.prems by (simp add: Let_def)
    then show ?thesis using Cons.prems(3) by simp
  next
    case False
    then have lt: "int (length (rows @ [map (Get r) (Keys r)])) < limit" by simp
    have "\<exists>c. collectRows limit rs c (rows @ [map (Get r) (Keys r)]) = (cols', rows', ex)"
      using Cons.prems(1) False by (auto simp: Let_def)
    then show ?thesis using Cons.IH [OF _ Cons.prems(2) lt] by blast
  qed
qed

lemma collectRows_unlimited:
  "limit \<le> 0 \<Longrightarrow>
   snd (collectRows limit rs cols rows) = (rows @ map (\<lambda>r. map (Get r) (Keys r)) rs, True)"
  by (induction rs arbitrary: cols rows) (auto simp: Let_def)

text \<open>
  C10 (as amended). For \<open>limit > 0\<close> the returned \<open>Rows\<close> has at most \<open>limit\<close> rows,
  whatever the backend streams and also when the trimmed query text already contains
  \<open>limit\<close> (in any case), in which case no \<open>LIMIT\<close> clause is appended. For
  \<open>limit \<le> 0\<close> the text sent to the backend is \<open>strings.TrimSpace\<close> of the query
  text (leading and trailing white space removed, that of Unicode included), with
  nothing appended, and when the stream ends without an error the rows are those of
  all its records.
\<close>

theorem ExecCypher_row_limit:
  "(0 < limit \<longrightarrow> int (length (Rows (fst (ExecCypher L run cypher limit)))) \<le> limit)
   \<and> (0 < limit \<and> Contains (ToLower L (TrimSpace L cypher)) ''limit'' \<longrightarrow>
        cy L cypher limit = TrimSpace L cypher)
   \<and> (limit \<le> 0 \<longrightarrow>
        cy L cypher limit = TrimSpace L cypher
        \<and> (\<forall>res. run (TrimSpace L cypher) = Inr res \<and> streamErr res = None \<longrightarrow>
              Rows (fst (ExecCypher L run cypher limit)) =
                map (\<lambda>r. map (Get r) (Keys r)) (records res)))"
proof (intro conjI impI allI)
  assume pos: "0 < limit"
  show "int (length (Rows (fst (ExecCypher L run cypher limit)))) \<le> limit"
  proof (cases "run (cy L cypher limit)")
    case (Inl err)
    then show ?thesis using pos by (simp add: ExecCypher_def emptyResultSet_def)
  next
    case (Inr res)
    obtain cols rows ex where c: "collectRows limit (records res) None [] = (cols, rows, ex)"
      by (cases "collectRows limit (records res) None []") auto
    have "int (length rows) \<le> limit"
      using collectRows_length [OF c pos] pos by simp
    then show ?thesis using Inr c pos
      by (auto simp: ExecCypher_def emptyResultSet_def split: option.splits)
  qed
next
  assume "0 < limit \<and> Contains (ToLower L (TrimSpace L cypher)) ''limit''"
  then show "cy L cypher limit = TrimSpace L cypher" by (simp add: cy_def)
next
  assume "limit \<le> 0"
  then show "cy L cypher limit = TrimSpace L cypher" by (simp add: cy_def)
next
  fix res
  assume np: "limit \<le> 0" and r: "run (TrimSpace L cypher) = Inr res \<and> streamErr res = None"
  have q: "cy L cypher limit = TrimSpace L cypher" using np by (simp add: cy_def)
  have "snd (collectRows limit (records res) None []) =
          ([] @ map (\<lambda>r. map (Get r) (Keys r)) (records res), True)"
    using np by (rule collectRows_unlimited)
  then show "Rows (fst (ExecCypher L run cypher limit)) =
                map (\<lambda>r. map (Get r) (Keys r)) (records res)"
    using r q by (auto simp: ExecCypher_def split: prod.splits)
qed

lemma limited_has_limit: "Contains (ToLower exampleLib (TrimSpace exampleLib ''MATCH (n) RETURN n.limited'')) ''limit''"
  by code_simp

lemma limited_trim: "TrimSpace exampleLib ''MATCH (n) RETURN n.limited'' = ''MATCH (n) RETURN n.limited''"
  by code_simp

theorem ExecCypher_row_limit_witness:
  "int (length (Rows (fst (ExecCypher exampleLib usersBackend ''MATCH (n) RETURN n.limited'' 2)))) \<le> 2
   \<and> cy exampleLib ''MATCH (n) RETURN n.limited'' 2 = ''MATCH (n) RETURN n.limited''
   \<and> cy exampleLib ''MATCH (n) RETURN n.limited'' 0 = ''MATCH (n) RETURN n.limited''
   \<and> Rows (fst (ExecCypher exampleLib usersBackend ''MATCH (n) RETURN n.limited'' 0)) = [[Some 1], [Some 2], [Some 3]]"
proof -
  note a = ExecCypher_row_limit [of 2 exampleLib usersBackend "''MATCH (n) RETURN n.limited''"]
  note b = ExecCypher_row_limit [of 0 exampleLib usersBackend "''MATCH (n) RETURN n.limited''"]
  have r: "usersBackend (TrimSpace exampleLib ''MATCH (n) RETURN n.limited'') = Inr threeUsers \<and> streamErr threeUsers = None"
    by (simp add: usersBackend_def threeUsers_def)
  have rows: "map (\<lambda>r. map (Get r) (Keys r)) (records threeUsers) = [[Some 1], [Some 2], [Some (3::nat)]]"
    by (simp add: threeUsers_def Get_def)
  have 1: "int (length (Rows (fst (ExecCypher exampleLib usersBackend ''MATCH (n) RETURN n.limited'' 2)))) \<le> 2"
    using a by simp
  have 2: "cy exampleLib ''MATCH (n) RETURN n.limited'' 2 = ''MATCH (n) RETURN n.limited''"
    using a limited_has_limit unfolding limited_trim by simp
  have 3: "cy exampleLib ''MATCH (n) RETURN n.limited'' 0 = ''MATCH (n) RETURN n.limited''"
    using b unfolding limited_trim by simp
  have 4: "Rows (fst (ExecCypher exampleLib usersBackend ''MATCH (n) RETURN n.limited'' 0)) = [[Some 1], [Some 2], [Some 3]]"
    using b r rows by simp
  show ?thesis using 1 2 3 4 by blast
qed

text \<open>
  C10 as stated fails in its last part: with \<open>limit = 0\<close> the query text that starts
  with a blank reaches the backend without it.
\<close>

theorem ExecCypher_trim_counterexample:
  "cy exampleLib '' MATCH (n) RETURN n'' 0 = ''MATCH (n) RETURN n''
   \<and> cy exampleLib '' MATCH (n) RETURN n'' 0 \<noteq> '' MATCH (n) RETURN n''
   \<and> ExecCypher exampleLib echoBackend '' MATCH (n) RETURN n'' 0 =
       (emptyResultSet, Some (PlainError ''MATCH (n) RETURN n''))"
  by code_simp

section \<open>Properties of the worker pool\<close>



lemma unique_range:
  "uniqueIndex jobs \<Longrightarrow> j \<in> set jobs \<Longrightarrow> 0 \<le> Index j \<and> Index j < int (length jobs)"
  by (simp add: uniqueIndex_def list_all_iff)

lemma unique_inj:
  "uniqueIndex jobs \<Longrightarrow> j \<in> set jobs \<Longrightarrow> j' \<in> set jobs \<Longrightarrow> Index j = Index j' \<Longrightarrow> j = j'"
  by (auto simp: uniqueIndex_def distinct_map inj_on_def)

lemma unique_distinct: "uniqueIndex jobs \<Longrightarrow> distinct jobs"
  by (simp add: uniqueIndex_def distinct_map)

lemma unique_nat_neq:
  assumes "uniqueIndex jobs" "j \<in> set jobs" "j' \<in> set jobs" "j \<noteq> j'"
  shows "nat (Index j) \<noteq> nat (Index j')"
proof
  assume e: "nat (Index j) = nat (Index j')"
  have a: "int (nat (Index j)) = Index j" using unique_range [OF assms(1,2)] by simp
  have b: "int (nat (Index j')) = Index j'" using unique_range [OF assms(1,3)] by simp
  have "Index j = int (nat (Index j))" using a by (rule sym)
  also have "\<dots> = int (nat (Index j'))" using e by (rule arg_cong)
  also have "\<dots> = Index j'" by (rule b)
  finally show False using unique_inj [OF assms(1,2,3)] assms(4) by blast
qed

lemma take_drop_disjoint: "distinct xs \<Longrightarrow> x \<in> set (take k xs) \<Longrightarrow> x \<notin> set (drop k xs)"
proof -
  assume d: "distinct xs" and x: "x \<in> set (take k xs)"
  have "distinct (take k xs @ drop k xs)" using d by simp
  then have "set (take k xs) \<inter> set (drop k xs) = {}" by (simp only: distinct_append)
  then show ?thesis using x by blast
qed

lemma nth_notin_take: "distinct xs \<Longrightarrow> k < length xs \<Longrightarrow> xs ! k \<notin> set (take k xs)"
  by (auto simp: in_set_conv_nth distinct_conv_nth)

lemma take_Suc_set: "k < length xs \<Longrightarrow> set (take (Suc k) xs) = insert (xs ! k) (set (take k xs))"
  by (simp add: take_Suc_conv_app_nth)

lemma poolInv_start:
  assumes "uniqueIndex jobs"
  shows "poolInv opts jobs (start opts jobs)"
proof -
  have "replicate (length jobs) (zeroQueryResult :: 'a QueryResult) ! nat (Index j) = zeroQueryResult"
    if "j \<in> set jobs" for j
  proof -
    have "nat (Index j) < length jobs" using unique_range [OF assms that] by linarith
    then show ?thesis by simp
  qed
  then show ?thesis
    by (auto simp: poolInv_def start_def sent_def busyAt_def)
qed

lemma busyAt_update:
  "busyAt (s\<lparr>workers := (workers s)[w := x]\<rparr>) w' j \<longleftrightarrow>
     w' < length (workers s) \<and> (if w' = w then x = Busy j else workers s ! w' = Busy j)"
  by (auto simp: busyAt_def)

lemma poolInv_Dispatch:
  assumes d: "uniqueIndex jobs" and inv: "poolInv opts jobs s"
    and st: "step L opts (Dispatch w) s = Some s'"
  shows "poolInv opts jobs s'"
proof -
  obtain jb rest where q: "queue s = jb # rest"
    using st by (cases "queue s") auto
  have g: "\<not> panicked s" "\<not> jobsClosed s" "\<not> stopClosed s" "w < length (workers s)" "workers s ! w = Idle"
    and s': "s' = s\<lparr>queue := rest, workers := (workers s)[w := Busy jb]\<rparr>"
    using st q by (auto split: if_splits)
  let ?k = "sent jobs s"
  have qd: "queue s = drop ?k jobs" and ql: "length (queue s) \<le> length jobs"
    using inv by (auto simp: poolInv_def)
  have k: "?k < length jobs" using q ql by (simp add: sent_def)
  have jbk: "jb = jobs ! ?k" and rest: "rest = drop (Suc ?k) jobs"
    using qd q k by (metis Cons_nth_drop_Suc list.inject)+
  have k': "sent jobs s' = Suc ?k" using q ql s' by (simp add: sent_def)
  have tk: "set (take (Suc ?k) jobs) = insert jb (set (take ?k jobs))"
    using take_Suc_set [OF k] jbk by simp
  have notin: "jb \<notin> set (take ?k jobs)"
    using nth_notin_take [OF unique_distinct [OF d] k] jbk by simp
  have bs': "\<And>w' j. busyAt s' w' j \<longleftrightarrow> (w' = w \<and> j = jb) \<or> busyAt s w' j"
    using g s' by (auto simp: busyAt_def nth_list_update)
  have b2: "\<And>w' j. busyAt s w' j \<Longrightarrow> j \<in> set (take ?k jobs)"
    using inv by (auto simp: poolInv_def)
  have b3: "\<And>w1 w2 j. busyAt s w1 j \<Longrightarrow> busyAt s w2 j \<Longrightarrow> w1 = w2"
    using inv unfolding poolInv_def by blast
  have e4: "\<And>j r. (j, r) \<in> set (executed s) \<Longrightarrow>
             j \<in> set (take ?k jobs) \<and> (\<forall>w. \<not> busyAt s w j) \<and> out s ! nat (Index j) = r"
    using inv unfolding poolInv_def by blast
  have z5: "\<And>j. j \<in> set (drop ?k jobs) \<Longrightarrow> out s ! nat (Index j) = zeroQueryResult"
    using inv unfolding poolInv_def by blast
  have c6: "\<And>j. j \<in> set (take ?k jobs) \<Longrightarrow> (\<exists>w. busyAt s w j) \<or> j \<in> fst ` set (executed s)"
    using inv unfolding poolInv_def by blast
  have ex': "executed s' = executed s" "out s' = out s" "panicked s' = panicked s"
    "stopClosed s' = stopClosed s" "jobsClosed s' = jobsClosed s" "queue s' = rest"
    using s' by simp_all
  have st': "Stopping \<in> set (workers s') \<Longrightarrow> Stopping \<in> set (workers s)"
    using s' g by (auto simp: in_set_conv_nth nth_list_update split: if_splits)
  have c1: "\<not> panicked s'" using g ex' by simp
  have c2: "length (out s') = length jobs" using inv ex' by (simp add: poolInv_def)
  have c3: "length (queue s') \<le> length jobs" using rest ex' by simp
  have c4: "queue s' = drop (sent jobs s') jobs" using rest ex' k' by simp
  have c5: "\<forall>w j. busyAt s' w j \<longrightarrow> j \<in> set (take (sent jobs s') jobs)"
    unfolding k' using bs' tk b2 by auto
  have c6': "\<forall>w w' j. busyAt s' w j \<and> busyAt s' w' j \<longrightarrow> w = w'"
    using bs' b2 b3 notin by metis
  have c7: "\<forall>j r. (j, r) \<in> set (executed s') \<longrightarrow>
             j \<in> set (take (sent jobs s') jobs) \<and> (\<forall>w. \<not> busyAt s' w j)
             \<and> out s' ! nat (Index j) = r"
    unfolding k' ex' using e4 bs' tk notin by auto
  have c8: "\<forall>j. j \<in> set (drop (sent jobs s') jobs) \<longrightarrow> out s' ! nat (Index j) = zeroQueryResult"
    unfolding k' ex' using z5 set_drop_subset_set_drop [of ?k "Suc ?k" jobs] by auto
  have c9: "\<forall>j. j \<in> set (take (sent jobs s') jobs) \<longrightarrow>
             (\<exists>w. busyAt s' w j) \<or> j \<in> fst ` set (executed s')"
    unfolding k' ex'
  proof (intro allI impI)
    fix j assume "j \<in> set (take (Suc ?k) jobs)"
    then consider "j = jb" | "j \<in> set (take ?k jobs)" using tk by auto
    then show "(\<exists>w. busyAt s' w j) \<or> j \<in> fst ` set (executed s)"
    proof cases
      case 1
      then have "busyAt s' w j" using bs' by simp
      then show ?thesis by blast
    next
      case 2
      then show ?thesis using c6 [OF 2] bs' by blast
    qed
  qed
  have c10: "stopClosed s' \<longrightarrow> FailFast opts" using inv ex' by (simp add: poolInv_def)
  have c11: "Stopping \<in> set (workers s') \<longrightarrow> FailFast opts"
    using st' inv by (auto simp: poolInv_def)
  have c12: "jobsClosed s' \<longrightarrow> queue s' = [] \<or> stopClosed s'" using g ex' by simp
  show ?thesis
    unfolding poolInv_def using c1 c2 c3 c4 c5 c6' c7 c8 c9 c10 c11 c12 by blast
qed

lemma in_update_other: "x \<in> set (xs[w := y]) \<Longrightarrow> x \<noteq> y \<Longrightarrow> x \<in> set xs"
  using set_update_subset_insert [of xs w y] by auto

lemma poolInv_Finish:
  assumes d: "uniqueIndex jobs" and inv: "poolInv opts jobs s"
    and st: "step L opts (Finish w env) s = Some s'"
  shows "poolInv opts jobs s' \<and> (\<exists>jb. busyAt s w jb \<and>
           executed s' = executed s @
             [(jb, \<lparr>ResultSet = fst (fst (execWithRetries L env (Retries opts))),
                    Err = snd (fst (execWithRetries L env (Retries opts))),
                    Skipped = False, SkipWhy = []\<rparr>)])"
proof -
  have g: "\<not> panicked s" "w < length (workers s)"
    using st by (auto split: if_splits)
  obtain jb where b: "workers s ! w = Busy jb" and s1: "s' = finishJob L opts w jb env s"
    using st g by (cases "workers s ! w") auto
  have bw: "busyAt s w jb" using g b by (simp add: busyAt_def)
  let ?k = "sent jobs s"
  obtain rs err where r: "fst (execWithRetries L env (Retries opts)) = (rs, err)"
    by (cases "fst (execWithRetries L env (Retries opts))") auto
  let ?r = "\<lparr>ResultSet = rs, Err = err, Skipped = False, SkipWhy = []\<rparr> :: 'a QueryResult"
  let ?x = "if err \<noteq> None \<and> FailFast opts then Stopping else Idle"
  have b2: "\<And>w' j. busyAt s w' j \<Longrightarrow> j \<in> set (take ?k jobs)"
    using inv by (auto simp: poolInv_def)
  have b3: "\<And>w1 w2 j. busyAt s w1 j \<Longrightarrow> busyAt s w2 j \<Longrightarrow> w1 = w2"
    using inv unfolding poolInv_def by blast
  have e4: "\<And>j r. (j, r) \<in> set (executed s) \<Longrightarrow>
             j \<in> set (take ?k jobs) \<and> (\<forall>w. \<not> busyAt s w j) \<and> out s ! nat (Index j) = r"
    using inv unfolding poolInv_def by blast
  have z5: "\<And>j. j \<in> set (drop ?k jobs) \<Longrightarrow> out s ! nat (Index j) = zeroQueryResult"
    using inv unfolding poolInv_def by blast
  have c6: "\<And>j. j \<in> set (take ?k jobs) \<Longrightarrow> (\<exists>w. busyAt s w j) \<or> j \<in> fst ` set (executed s)"
    using inv unfolding poolInv_def by blast
  have lo: "length (out s) = length jobs" using inv by (simp add: poolInv_def)
  have jk: "jb \<in> set (take ?k jobs)" using b2 [OF bw] .
  have jj: "jb \<in> set jobs" using jk by (rule in_set_takeD)
  have ix: "0 \<le> Index jb" "Index jb < int (length jobs)"
    using unique_range [OF d jj] by auto
  have s': "s' = s\<lparr>out := (out s)[nat (Index jb) := ?r], executed := executed s @ [(jb, ?r)],
                   workers := (workers s)[w := ?x]\<rparr>"
    using s1 r ix lo by (simp add: finishJob_def)
  have k': "sent jobs s' = ?k" using s' by (simp add: sent_def)
  have bs': "\<And>w' j. busyAt s' w' j \<longleftrightarrow> w' \<noteq> w \<and> busyAt s w' j"
    using g s' by (auto simp: busyAt_def nth_list_update)
  have ex': "executed s' = executed s @ [(jb, ?r)]" "out s' = (out s)[nat (Index jb) := ?r]"
    "panicked s' = panicked s" "stopClosed s' = stopClosed s" "jobsClosed s' = jobsClosed s"
    "queue s' = queue s"
    using s' by simp_all
  have c1: "\<not> panicked s'" using g ex' by simp
  have c2: "length (out s') = length jobs" using lo ex' by simp
  have c3: "length (queue s') \<le> length jobs" using inv ex' by (simp add: poolInv_def)
  have c4: "queue s' = drop (sent jobs s') jobs" using inv ex' k' by (simp add: poolInv_def)
  have c5: "\<forall>w j. busyAt s' w j \<longrightarrow> j \<in> set (take (sent jobs s') jobs)"
    unfolding k' using bs' b2 by auto
  have c6': "\<forall>w w' j. busyAt s' w j \<and> busyAt s' w' j \<longrightarrow> w = w'"
    using bs' b3 by metis
  have c7: "\<forall>j r. (j, r) \<in> set (executed s') \<longrightarrow>
             j \<in> set (take (sent jobs s') jobs) \<and> (\<forall>w. \<not> busyAt s' w j)
             \<and> out s' ! nat (Index j) = r"
    unfolding k'
  proof (intro allI impI)
    fix j r assume "(j, r) \<in> set (executed s')"
    then consider "(j, r) \<in> set (executed s)" | "j = jb" "r = ?r" using ex' by auto
    then show "j \<in> set (take ?k jobs) \<and> (\<forall>w. \<not> busyAt s' w j) \<and> out s' ! nat (Index j) = r"
    proof cases
      case 1
      have a: "j \<in> set (take ?k jobs)" "\<forall>w. \<not> busyAt s w j" "out s ! nat (Index j) = r"
        using e4 [OF 1] by auto
      have "j \<noteq> jb" using a(2) bw by blast
      then have "nat (Index j) \<noteq> nat (Index jb)"
        using unique_nat_neq [OF d in_set_takeD [OF a(1)] jj] by blast
      then show ?thesis using a bs' ex' by simp
    next
      case 2
      have "\<forall>w'. \<not> busyAt s' w' jb" using bs' b3 bw by blast
      moreover have "out s' ! nat (Index jb) = ?r" using ex' ix lo by simp
      ultimately show ?thesis using 2 jk by simp
    qed
  qed
  have c8: "\<forall>j. j \<in> set (drop (sent jobs s') jobs) \<longrightarrow> out s' ! nat (Index j) = zeroQueryResult"
    unfolding k'
  proof (intro allI impI)
    fix j assume j: "j \<in> set (drop ?k jobs)"
    have "j \<noteq> jb" using take_drop_disjoint [OF unique_distinct [OF d] jk] j by blast
    then have "nat (Index j) \<noteq> nat (Index jb)"
      using unique_nat_neq [OF d in_set_dropD [OF j] jj] by blast
    then show "out s' ! nat (Index j) = zeroQueryResult" using z5 [OF j] ex' by simp
  qed
  have c9: "\<forall>j. j \<in> set (take (sent jobs s') jobs) \<longrightarrow>
             (\<exists>w. busyAt s' w j) \<or> j \<in> fst ` set (executed s')"
    unfolding k'
  proof (intro allI impI)
    fix j assume j: "j \<in> set (take ?k jobs)"
    show "(\<exists>w. busyAt s' w j) \<or> j \<in> fst ` set (executed s')"
    proof (cases "j = jb")
      case True
      then show ?thesis using ex' by force
    next
      case False
      from c6 [OF j] show ?thesis
      proof
        assume "\<exists>w'. busyAt s w' j"
        then obtain w' where w': "busyAt s w' j" by blast
        then have "w' \<noteq> w" using False bw by (auto simp: busyAt_def)
        then show ?thesis using w' bs' by blast
      next
        assume "j \<in> fst ` set (executed s)"
        then show ?thesis using ex' by auto
      qed
    qed
  qed
  have c10: "stopClosed s' \<longrightarrow> FailFast opts" using inv ex' by (simp add: poolInv_def)
  have st': "Stopping \<in> set (workers s') \<Longrightarrow> Stopping \<in> set (workers s) \<or> FailFast opts"
    using s' g by (auto simp: in_set_conv_nth nth_list_update split: if_splits)
  have c11: "Stopping \<in> set (workers s') \<longrightarrow> FailFast opts"
    using st' inv by (auto simp: poolInv_def)
  have c12: "jobsClosed s' \<longrightarrow> queue s' = [] \<or> stopClosed s'"
    using inv unfolding poolInv_def ex'(4,5,6) by blast
  have "poolInv opts jobs s'"
    unfolding poolInv_def using c1 c2 c3 c4 c5 c6' c7 c8 c9 c10 c11 c12 by blast
  then show ?thesis using bw ex'(1) r by auto
qed

lemma poolInv_other:
  assumes inv: "poolInv opts jobs s"
    and st: "step L opts a s = Some s'" and a: "a = Stop w \<or> a = Leave w \<or> a = CloseJobs"
  shows "poolInv opts jobs s'"
proof -
  have same: "queue s' = queue s" "out s' = out s" "executed s' = executed s"
    "panicked s' = panicked s" "length (workers s') = length (workers s)"
    using st a by (auto split: if_splits)
  have k': "sent jobs s' = sent jobs s" using same by (simp add: sent_def)
  have bs': "\<And>w' j. busyAt s' w' j \<longleftrightarrow> busyAt s w' j"
    using st a by (auto simp: busyAt_def nth_list_update split: if_splits)
  have ff0: "stopClosed s \<longrightarrow> FailFast opts" "Stopping \<in> set (workers s) \<longrightarrow> FailFast opts"
    using inv by (auto simp: poolInv_def)
  have "stopClosed s' \<Longrightarrow> stopClosed s \<or> Stopping \<in> set (workers s)"
    using st a by (auto split: if_splits) (metis nth_mem)
  then have ff: "stopClosed s' \<longrightarrow> FailFast opts"
    using ff0 by blast
  have st': "Stopping \<in> set (workers s') \<Longrightarrow> Stopping \<in> set (workers s)"
    using st a in_update_other [of Stopping "workers s" w Idle]
      in_update_other [of Stopping "workers s" w Exited]
    by (auto split: if_splits)
  have c11: "Stopping \<in> set (workers s') \<longrightarrow> FailFast opts"
    using st' inv by (auto simp: poolInv_def)
  have c12: "jobsClosed s' \<longrightarrow> queue s' = [] \<or> stopClosed s'"
    using st a inv by (auto simp: poolInv_def split: if_splits)
  show ?thesis
    using inv ff c11 c12 unfolding poolInv_def k' same bs' by blast
qed

lemma poolInv_step:
  assumes "uniqueIndex jobs" "poolInv opts jobs s" "step L opts a s = Some s'"
  shows "poolInv opts jobs s'"
proof (cases a)
  case (Dispatch w)
  then show ?thesis using assms poolInv_Dispatch by blast
next
  case (Finish w env)
  then show ?thesis using assms poolInv_Finish by blast
next
  case (Stop w)
  then show ?thesis using assms poolInv_other by blast
next
  case (Leave w)
  then show ?thesis using assms poolInv_other by blast
next
  case CloseJobs
  then show ?thesis using assms poolInv_other by blast
qed

lemma poolInv_steps:
  assumes "uniqueIndex jobs"
  shows "poolInv opts jobs s \<Longrightarrow> steps L opts sched s = Some s' \<Longrightarrow> poolInv opts jobs s'"
proof (induction sched arbitrary: s)
  case Nil
  then show ?case by simp
next
  case (Cons a sched)
  then obtain s1 where s1: "step L opts a s = Some s1" "steps L opts sched s1 = Some s'"
    by (auto split: option.splits)
  show ?case using Cons.IH [OF poolInv_step [OF assms Cons.prems(1) s1(1)] s1(2)] .
qed









lemma steps_append:
  "steps L opts (xs @ ys) s = (case steps L opts xs s of None \<Rightarrow> None | Some s1 \<Rightarrow> steps L opts ys s1)"
  by (induction xs arbitrary: s) (auto split: option.splits)










text \<open>
  What does hold of fail-fast in every execution: once \<open>stopCh\<close> is closed no job is
  handed to a worker, a job in flight can still complete, and the slot of every job
  still in the queue holds the zero value.
\<close>

lemma stop_blocks_dispatch: "stopClosed s \<Longrightarrow> step L opts (Dispatch w) s = None"
  by (simp split: list.splits)

lemma inflight_completes:
  "\<not> panicked s \<Longrightarrow> busyAt s w jb \<Longrightarrow> step L opts (Finish w env) s = Some (finishJob L opts w jb env s)"
  by (simp add: busyAt_def)

lemma undispatched_zero:
  assumes "uniqueIndex jobs"
    and "steps L (coerce opts) sched (start (coerce opts) jobs) = Some s"
    and "jb \<in> set (queue s)"
  shows "out s ! nat (Index jb) = zeroQueryResult \<and> jb \<notin> fst ` set (executed s)"
proof -
  have inv: "poolInv (coerce opts) jobs s"
    using poolInv_steps [OF assms(1) poolInv_start [OF assms(1)] assms(2)] .
  let ?k = "sent jobs s"
  have q: "queue s = drop ?k jobs" using inv by (simp add: poolInv_def)
  then have jd: "jb \<in> set (drop ?k jobs)" using assms(3) by simp
  have z: "out s ! nat (Index jb) = zeroQueryResult"
    using inv jd unfolding poolInv_def by blast
  have "jb \<notin> set (take ?k jobs)"
    using take_drop_disjoint [OF unique_distinct [OF assms(1)]] jd by blast
  then have "jb \<notin> fst ` set (executed s)"
    using inv unfolding poolInv_def by force
  then show ?thesis using z by simp
qed

text \<open>The output that \<open>main\<close> builds from a slot that was never written.\<close>

lemma zero_result_output:
  "resultOutput q zeroQueryResult =
     \<lparr>Query = q, Result = emptyResultSet, Error = [], OutSkipped = False, OutSkipWhy = []\<rparr>"
  by (simp add: resultOutput_def zeroQueryResult_def)

text \<open>
  C5. The claim is that under fail-fast every job that is never dispatched ends in the
  outcome collection as a cancellation-skip. With five jobs, two workers and fail-fast,
  let jobs 0 and 1 be dispatched, job 1 fail with a permanent error and its worker call
  \<open>stop()\<close>, job 0 then complete, and the goroutines return. Jobs 2, 3 and 4 are never
  dispatched (they are still in the queue at the end) and never executed, and their
  slots hold the zero \<open>QueryResult\<close>: \<open>Skipped\<close> is false, \<open>SkipWhy\<close> is empty and \<open>Err\<close>
  is nil.
\<close>

theorem Run_failfast_undispatched:
  "RunState exampleLib failFastOpts fiveJobs failFastSchedule \<noteq> None
   \<and> map_option queue (RunState exampleLib failFastOpts fiveJobs failFastSchedule) = Some [jobNo 2, jobNo 3, jobNo 4]
   \<and> map_option (map fst \<circ> executed) (RunState exampleLib failFastOpts fiveJobs failFastSchedule)
       = Some [jobNo 1, jobNo 0]
   \<and> Run exampleLib failFastOpts fiveJobs failFastSchedule =
       Some [\<lparr>ResultSet = okRS, Err = None, Skipped = False, SkipWhy = []\<rparr>,
             \<lparr>ResultSet = emptyResultSet, Err = Some (Neo4jError ''ClientError'' ''invalid syntax''),
              Skipped = False, SkipWhy = []\<rparr>,
             \<lparr>ResultSet = emptyResultSet, Err = None, Skipped = False, SkipWhy = []\<rparr>,
             \<lparr>ResultSet = emptyResultSet, Err = None, Skipped = False, SkipWhy = []\<rparr>,
             \<lparr>ResultSet = emptyResultSet, Err = None, Skipped = False, SkipWhy = []\<rparr>]
   \<and> Skipped (zeroQueryResult :: nat QueryResult) = False
   \<and> Err (zeroQueryResult :: nat QueryResult) = None"
  by code_simp

section \<open>Properties of the output assembly\<close>

lemma labelsLoop_reason: "labelsLoop L ms p = Some (b, why) \<Longrightarrow> \<not> b \<and> why \<noteq> []"
  by (induction ms) (auto simp: Let_def split: if_splits)

lemma relsLoop_reason: "relsLoop L ms p = Some (b, why) \<Longrightarrow> \<not> b \<and> why \<noteq> []"
  by (induction ms) (auto simp: Let_def split: if_splits)

lemma CanRunCypher_reason: "\<not> fst (CanRunCypher L c p) \<Longrightarrow> snd (CanRunCypher L c p) \<noteq> []"
  unfolding CanRunCypher_def
  by (auto split: option.splits dest: labelsLoop_reason relsLoop_reason)

lemma planLoop_jobs:
  "planLoop L sk p iqs (outs, jobs, idx) = (outs', jobs', idx') \<Longrightarrow>
     idx' = idx @ map fst (filter (\<lambda>(i, q). \<not> skipped L sk p q) iqs)
   \<and> jobs' = jobs @ map (\<lambda>(n, q). jobOf n q)
               (enumerate (length jobs) (map snd (filter (\<lambda>(i, q). \<not> skipped L sk p q) iqs)))
   \<and> length outs' = length outs"
proof (induction iqs arbitrary: outs jobs idx)
  case Nil
  then show ?case by simp
next
  case (Cons a iqs)
  obtain i q where a: "a = (i, q)" by (cases a)
  show ?case
  proof (cases "skipped L sk p q")
    case True
    then have "planLoop L sk p iqs (outs[i := skippedOutput L p q], jobs, idx) = (outs', jobs', idx')"
      using Cons.prems a by (simp add: skipped_def)
    from Cons.IH [OF this] show ?thesis using True a by simp
  next
    case False
    then have "planLoop L sk p iqs (outs, jobs @ [jobOf (length jobs) q], idx @ [i]) = (outs', jobs', idx')"
      using Cons.prems a by (auto simp: skipped_def)
    from Cons.IH [OF this] show ?thesis using False a by simp
  qed
qed

lemma planLoop_outs_keep:
  "planLoop L sk p iqs (outs, jobs, idx) = (outs', jobs', idx') \<Longrightarrow>
   (\<And>q. (m, q) \<in> set iqs \<Longrightarrow> \<not> skipped L sk p q) \<Longrightarrow> outs' ! m = outs ! m"
proof (induction iqs arbitrary: outs jobs idx)
  case Nil
  then show ?case by simp
next
  case (Cons a iqs)
  obtain i q where a: "a = (i, q)" by (cases a)
  have rest: "\<And>q. (m, q) \<in> set iqs \<Longrightarrow> \<not> skipped L sk p q" using Cons.prems(2) by simp
  show ?case
  proof (cases "skipped L sk p q")
    case True
    then have 1: "planLoop L sk p iqs (outs[i := skippedOutput L p q], jobs, idx) = (outs', jobs', idx')"
      using Cons.prems a by (simp add: skipped_def)
    have "i \<noteq> m" using True Cons.prems(2) [of q] a by auto
    then show ?thesis using Cons.IH [OF 1 rest] by simp
  next
    case False
    then have 1: "planLoop L sk p iqs (outs, jobs @ [jobOf (length jobs) q], idx @ [i]) = (outs', jobs', idx')"
      using Cons.prems a by (auto simp: skipped_def)
    show ?thesis using Cons.IH [OF 1 rest] by simp
  qed
qed

lemma planLoop_outs_skip:
  "planLoop L sk p iqs (outs, jobs, idx) = (outs', jobs', idx') \<Longrightarrow> distinct (map fst iqs) \<Longrightarrow>
   (m, q) \<in> set iqs \<Longrightarrow> skipped L sk p q \<Longrightarrow> m < length outs \<Longrightarrow> outs' ! m = skippedOutput L p q"
proof (induction iqs arbitrary: outs jobs idx)
  case Nil
  then show ?case by simp
next
  case (Cons a iqs)
  obtain i q' where a: "a = (i, q')" by (cases a)
  have dist: "distinct (map fst iqs)" "i \<notin> fst ` set iqs" using Cons.prems(2) a by auto
  show ?case
  proof (cases "(m, q) = (i, q')")
    case True
    then have 1: "planLoop L sk p iqs (outs[m := skippedOutput L p q], jobs, idx) = (outs', jobs', idx')"
      using Cons.prems(1,4) a by (simp add: skipped_def)
    have "\<And>q''. (m, q'') \<in> set iqs \<Longrightarrow> \<not> skipped L sk p q''"
      using dist(2) True by force
    from planLoop_outs_keep [OF 1 this] show ?thesis using Cons.prems(5) by simp
  next
    case False
    then have in_rest: "(m, q) \<in> set iqs" using Cons.prems(3) a by auto
    show ?thesis
    proof (cases "skipped L sk p q'")
      case True
      then have 1: "planLoop L sk p iqs (outs[i := skippedOutput L p q'], jobs, idx) = (outs', jobs', idx')"
        using Cons.prems(1) a by (simp add: skipped_def)
      show ?thesis using Cons.IH [OF 1 dist(1) in_rest Cons.prems(4)] Cons.prems(5) by simp
    next
      case False
      then have 1: "planLoop L sk p iqs (outs, jobs @ [jobOf (length jobs) q'], idx @ [i]) = (outs', jobs', idx')"
        using Cons.prems(1) a by (auto simp: skipped_def)
      show ?thesis using Cons.IH [OF 1 dist(1) in_rest Cons.prems(4,5)] .
    qed
  qed
qed

lemma mergeLoop_total:
  "(\<And>j r. (j, r) \<in> set jrs \<Longrightarrow> j < length idx \<and> idx ! j < length qs \<and> idx ! j < length outs)
   \<Longrightarrow> \<exists>outs'. mergeLoop qs idx jrs outs = Some outs' \<and> length outs' = length outs"
proof (induction jrs arbitrary: outs)
  case Nil
  then show ?case by simp
next
  case (Cons a jrs)
  obtain j r where a: "a = (j, r)" by (cases a)
  have h: "j < length idx" "idx ! j < length qs" "idx ! j < length outs"
    using Cons.prems [of j r] a by auto
  let ?o = "outs[idx ! j := resultOutput (qs ! (idx ! j)) r]"
  have "\<exists>outs'. mergeLoop qs idx jrs ?o = Some outs' \<and> length outs' = length ?o"
    by (rule Cons.IH) (use Cons.prems in auto)
  then show ?case using a h by (simp add: Let_def)
qed

lemma mergeLoop_keep:
  "mergeLoop qs idx jrs outs = Some outs' \<Longrightarrow> (\<And>j r. (j, r) \<in> set jrs \<Longrightarrow> idx ! j \<noteq> m)
   \<Longrightarrow> outs' ! m = outs ! m"
proof (induction jrs arbitrary: outs)
  case Nil
  then show ?case by simp
next
  case (Cons a jrs)
  obtain j r where a: "a = (j, r)" by (cases a)
  have 1: "mergeLoop qs idx jrs (outs[idx ! j := resultOutput (qs ! (idx ! j)) r]) = Some outs'"
    using Cons.prems(1) a by (auto simp: Let_def split: if_splits)
  have ne: "idx ! j \<noteq> m" using Cons.prems(2) [of j r] a by simp
  have rest: "idx ! j0 \<noteq> m" if "(j0, r0) \<in> set jrs" for j0 r0
  proof -
    have "(j0, r0) \<in> set (a # jrs)" using that by simp
    then show ?thesis by (rule Cons.prems(2))
  qed
  show ?case using Cons.IH [OF 1 rest] ne by simp
qed

lemma mergeLoop_set:
  "mergeLoop qs idx jrs outs = Some outs' \<Longrightarrow> distinct (map (\<lambda>(j, r). idx ! j) jrs) \<Longrightarrow>
   (j, r) \<in> set jrs \<Longrightarrow> outs' ! (idx ! j) = resultOutput (qs ! (idx ! j)) r"
proof (induction jrs arbitrary: outs)
  case Nil
  then show ?case by simp
next
  case (Cons a jrs)
  obtain j' r' where a: "a = (j', r')" by (cases a)
  have g: "j' < length idx" "idx ! j' < length qs" "idx ! j' < length outs"
    and 1: "mergeLoop qs idx jrs (outs[idx ! j' := resultOutput (qs ! (idx ! j')) r']) = Some outs'"
    using Cons.prems(1) a by (auto simp: Let_def split: if_splits)
  have dist: "distinct (map (\<lambda>(j, r). idx ! j) jrs)" "\<And>j r. (j, r) \<in> set jrs \<Longrightarrow> idx ! j \<noteq> idx ! j'"
    using Cons.prems(2) a by force+
  show ?case
  proof (cases "(j, r) = (j', r')")
    case True
    show ?thesis using mergeLoop_keep [OF 1 dist(2)] True g by simp
  next
    case False
    then have "(j, r) \<in> set jrs" using Cons.prems(3) a by auto
    then show ?thesis using Cons.IH [OF 1 dist(1)] by simp
  qed
qed

lemma plan_closed:
  fixes outs :: "'v Output list"
  assumes "plan L sk p qs = (outs, jobs, idx)"
  shows "idx = map fst (filter (\<lambda>(i, q). \<not> skipped L sk p q) (enumerate 0 qs))"
    and "jobs = map (\<lambda>(n, q). jobOf n q)
               (enumerate 0 (map snd (filter (\<lambda>(i, q). \<not> skipped L sk p q) (enumerate 0 qs))))"
    and "length outs = length qs" and "length jobs = length idx"
proof -
  have pl: "planLoop L sk p (enumerate 0 qs) (replicate (length qs) zeroOutput, [], []) = (outs, jobs, idx)"
    using assms by (simp add: plan_def)
  note c = planLoop_jobs [OF pl]
  show "idx = map fst (filter (\<lambda>(i, q). \<not> skipped L sk p q) (enumerate 0 qs))" using c by simp
  show j: "jobs = map (\<lambda>(n, q). jobOf n q)
               (enumerate 0 (map snd (filter (\<lambda>(i, q). \<not> skipped L sk p q) (enumerate 0 qs))))"
    using c by simp
  show "length outs = length qs" using c by simp
  show "length jobs = length idx" using c by simp
qed

lemma plannedJobs_eq:
  fixes outs :: "'v Output list"
  assumes "plan L sk p qs = (outs, jobs, idx)"
  shows "plannedJobs L sk p qs = jobs"
proof -
  obtain o' j' i' where u: "(plan L sk p qs :: unit Output list \<times> QueryJob list \<times> nat list) = (o', j', i')"
    by (cases "plan L sk p qs :: unit Output list \<times> QueryJob list \<times> nat list") auto
  show ?thesis using plan_closed(2) [OF u] plan_closed(2) [OF assms] u by (simp add: plannedJobs_def)
qed

lemma enumerate_jobs_nth:
  "n < length xs \<Longrightarrow> map (\<lambda>(n, q). jobOf n q) (enumerate 0 xs) ! n = jobOf n (xs ! n)"
  by (simp add: nth_enumerate_eq)

lemma enumerate_jobs_dense: "denseIndex (map (\<lambda>(n, q). jobOf n q) (enumerate 0 xs))"
  by (auto simp: denseIndex_def jobOf_def enumerate_eq_zip intro!: nth_equalityI)

text \<open>
  C9. Whenever the scheduler returns one result per planned job, the assembly in \<open>main\<close>
  does not panic and yields one output per query of the original list, at the position
  of the query. For a query that the planner skips (\<open>schemaSkip\<close> is set and
  \<open>CanRunCypher\<close> says not runnable) the output holds that query, \<open>Skipped = true\<close>, the
  reason returned by \<open>CanRunCypher\<close>, which is not empty, an empty result set and no
  error text. For any other query there is a planned job \<open>j\<close>, with \<open>Index = j\<close> and the
  \<open>ID\<close>, \<open>SheetName\<close> and \<open>Cypher\<close> of the query, and the output holds that query, the
  result set of the scheduler's result number \<open>j\<close>, the text of its error (empty when
  the error is nil), \<open>Skipped = false\<close> and no reason. The planned jobs have dense
  indices, as \<open>Run\<close> needs. An error in one result aborts nothing: the function is
  total under the length hypothesis alone.
\<close>

theorem mainOutputs_complete:
  fixes run :: "QueryJob list \<Rightarrow> 'v QueryResult list"
  assumes "length (run (plannedJobs L sk p qs)) = length (plannedJobs L sk p qs)"
  shows "\<exists>outs. mainOutputs L sk p qs run = Some outs \<and> length outs = length qs
     \<and> denseIndex (plannedJobs L sk p qs)
     \<and> (\<forall>i<length qs.
          if sk \<and> \<not> fst (CanRunCypher L (QueryCypher (qs ! i)) p)
          then outs ! i =
                 \<lparr>Query = qs ! i, Result = emptyResultSet, Error = [], OutSkipped = True,
                  OutSkipWhy = snd (CanRunCypher L (QueryCypher (qs ! i)) p)\<rparr>
               \<and> snd (CanRunCypher L (QueryCypher (qs ! i)) p) \<noteq> []
          else (\<exists>j<length (plannedJobs L sk p qs).
                  plannedJobs L sk p qs ! j =
                    \<lparr>Index = int j, ID = QueryID (qs ! i), Name = SheetName (qs ! i),
                     Cypher = QueryCypher (qs ! i)\<rparr>
                  \<and> outs ! i =
                      \<lparr>Query = qs ! i, Result = ResultSet (run (plannedJobs L sk p qs) ! j),
                       Error = (case Err (run (plannedJobs L sk p qs) ! j) of
                                  None \<Rightarrow> [] | Some e \<Rightarrow> ErrorString e),
                       OutSkipped = False, OutSkipWhy = []\<rparr>))"
proof -
  obtain outs0 :: "'v Output list" and jobs idx where pl: "plan L sk p qs = (outs0, jobs, idx)"
    by (cases "plan L sk p qs :: 'v Output list \<times> QueryJob list \<times> nat list") auto
  let ?P = "\<lambda>(i, q). \<not> skipped L sk p q"
  let ?f = "filter ?P (enumerate 0 qs)"
  have idx: "idx = map fst ?f" and jobs: "jobs = map (\<lambda>(n, q). jobOf n q) (enumerate 0 (map snd ?f))"
    and l0: "length outs0 = length qs" and lj: "length jobs = length idx"
    using plan_closed [OF pl] by auto
  have pj: "plannedJobs L sk p qs = jobs" by (rule plannedJobs_eq [OF pl])
  let ?res = "run jobs"
  have lr: "length ?res = length idx" using assms pj lj by simp
  have dense: "denseIndex jobs" unfolding jobs by (rule enumerate_jobs_dense)
  have didx: "distinct idx"
    unfolding idx by (rule distinct_map_filter) (simp add: distinct_enumerate)
  have in_f: "\<And>a. a \<in> set ?f \<Longrightarrow> fst a < length qs \<and> snd a = qs ! fst a \<and> \<not> skipped L sk p (snd a)"
    by (auto simp: in_set_enumerate_eq)
  have idx_nth: "idx ! j < length qs \<and> \<not> skipped L sk p (qs ! (idx ! j)) \<and> snd (?f ! j) = qs ! (idx ! j)"
    if "j < length idx" for j
  proof -
    have lf: "length ?f = length idx" unfolding idx by simp
    have mem: "?f ! j \<in> set ?f" using that lf by (metis nth_mem)
    have "idx ! j = fst (?f ! j)" using that lf unfolding idx by (metis nth_map)
    then show ?thesis using in_f [OF mem] by metis
  qed
  have rng: "\<And>j r. (j, r) \<in> set (enumerate 0 ?res) \<Longrightarrow>
      j < length idx \<and> idx ! j < length qs \<and> idx ! j < length outs0"
    using lr idx_nth l0 by (auto simp: in_set_enumerate_eq)
  obtain outs where m: "mergeLoop qs idx (enumerate 0 ?res) outs0 = Some outs"
    and lo: "length outs = length outs0"
    using mergeLoop_total [of "enumerate 0 ?res" idx qs outs0] rng by blast
  have mo: "mainOutputs L sk p qs run = Some outs" using pl m by (simp add: mainOutputs_def)
  have dmap: "distinct (map (\<lambda>(j, r). idx ! j) (enumerate 0 ?res))"
  proof -
    have "map (\<lambda>(j, r). idx ! j) (enumerate 0 ?res) = idx"
      using lr by (auto simp: enumerate_eq_zip intro!: nth_equalityI)
    then show ?thesis using didx by simp
  qed
  have pl0: "planLoop L sk p (enumerate 0 qs) (replicate (length qs) zeroOutput, [], []) = (outs0, jobs, idx)"
    using pl by (simp add: plan_def)
  have each: "if skipped L sk p (qs ! i)
          then outs ! i = skippedOutput L p (qs ! i) \<and> OutSkipWhy (outs ! i) \<noteq> []
          else (\<exists>j<length jobs. jobs ! j = jobOf j (qs ! i) \<and> outs ! i = resultOutput (qs ! i) (?res ! j))"
    if i: "i < length qs" for i
  proof (cases "skipped L sk p (qs ! i)")
    case True
    have mem: "(i, qs ! i) \<in> set (enumerate 0 qs)" using i by (simp add: in_set_enumerate_eq)
    have o0: "outs0 ! i = skippedOutput L p (qs ! i)"
      using planLoop_outs_skip [OF pl0 _ mem True] i by (simp add: distinct_enumerate)
    have "\<And>j r. (j, r) \<in> set (enumerate 0 ?res) \<Longrightarrow> idx ! j \<noteq> i"
      using idx_nth True lr by (auto simp: in_set_enumerate_eq)
    then have "outs ! i = outs0 ! i" using mergeLoop_keep [OF m] by blast
    moreover have "OutSkipWhy (skippedOutput L p (qs ! i) :: 'v Output) \<noteq> []"
      using True CanRunCypher_reason by (simp add: skippedOutput_def skipped_def)
    ultimately show ?thesis using True o0 by simp
  next
    case False
    have "(i, qs ! i) \<in> set ?f" using i False by (simp add: in_set_enumerate_eq)
    then have "i \<in> set idx" unfolding idx by force
    then obtain j where j: "j < length idx" "idx ! j = i" by (auto simp: in_set_conv_nth)
    have jr: "(j, ?res ! j) \<in> set (enumerate 0 ?res)" using j lr by (simp add: in_set_enumerate_eq)
    have o: "outs ! i = resultOutput (qs ! i) (?res ! j)"
      using mergeLoop_set [OF m dmap jr] j by simp
    have "j < length (map snd ?f)" using j idx by simp
    then have "jobs ! j = jobOf j (map snd ?f ! j)"
      unfolding jobs by (rule enumerate_jobs_nth)
    then have "jobs ! j = jobOf j (qs ! i)" using idx_nth [OF j(1)] j idx by simp
    then show ?thesis using False o j lj by auto
  qed
  have each': "if sk \<and> \<not> fst (CanRunCypher L (QueryCypher (qs ! i)) p)
          then outs ! i =
                 \<lparr>Query = qs ! i, Result = emptyResultSet, Error = [], OutSkipped = True,
                  OutSkipWhy = snd (CanRunCypher L (QueryCypher (qs ! i)) p)\<rparr>
               \<and> snd (CanRunCypher L (QueryCypher (qs ! i)) p) \<noteq> []
          else (\<exists>j<length jobs.
                  jobs ! j =
                    \<lparr>Index = int j, ID = QueryID (qs ! i), Name = SheetName (qs ! i),
                     Cypher = QueryCypher (qs ! i)\<rparr>
                  \<and> outs ! i =
                      \<lparr>Query = qs ! i, Result = ResultSet (run jobs ! j),
                       Error = (case Err (run jobs ! j) of None \<Rightarrow> [] | Some e \<Rightarrow> ErrorString e),
                       OutSkipped = False, OutSkipWhy = []\<rparr>)"
    if i: "i < length qs" for i
  proof (cases "skipped L sk p (qs ! i)")
    case True
    have c: "sk \<and> \<not> fst (CanRunCypher L (QueryCypher (qs ! i)) p)"
      using True by (simp add: skipped_def)
    have ow: "outs ! i = skippedOutput L p (qs ! i) \<and> OutSkipWhy (outs ! i) \<noteq> []"
      using each [OF i] unfolding if_P [OF True] .
    have o: "outs ! i = skippedOutput L p (qs ! i)" using ow by (rule conjunct1)
    have w: "OutSkipWhy (outs ! i) \<noteq> []" using ow by (rule conjunct2)
    have w': "snd (CanRunCypher L (QueryCypher (qs ! i)) p) \<noteq> []"
      using w unfolding o by (simp add: skippedOutput_def)
    show ?thesis using c o w' by (simp add: skippedOutput_def)
  next
    case False
    have c: "\<not> (sk \<and> \<not> fst (CanRunCypher L (QueryCypher (qs ! i)) p))"
      using False by (simp add: skipped_def)
    obtain j where j: "j < length jobs" "jobs ! j = jobOf j (qs ! i)"
        "outs ! i = resultOutput (qs ! i) (run jobs ! j)"
      using each [OF i] False by auto
    have "jobs ! j =
            \<lparr>Index = int j, ID = QueryID (qs ! i), Name = SheetName (qs ! i),
             Cypher = QueryCypher (qs ! i)\<rparr>
          \<and> outs ! i =
              \<lparr>Query = qs ! i, Result = ResultSet (run jobs ! j),
               Error = (case Err (run jobs ! j) of None \<Rightarrow> [] | Some e \<Rightarrow> ErrorString e),
               OutSkipped = False, OutSkipWhy = []\<rparr>"
      using j(2,3) by (simp add: jobOf_def resultOutput_def)
    then show ?thesis using c j(1) by auto
  qed
  show ?thesis unfolding pj
  proof (intro exI conjI)
    show "mainOutputs L sk p qs run = Some outs" by (rule mo)
    show "length outs = length qs" using lo l0 by simp
    show "denseIndex jobs" by (rule dense)
    show "\<forall>i<length qs.
          if sk \<and> \<not> fst (CanRunCypher L (QueryCypher (qs ! i)) p)
          then outs ! i =
                 \<lparr>Query = qs ! i, Result = emptyResultSet, Error = [], OutSkipped = True,
                  OutSkipWhy = snd (CanRunCypher L (QueryCypher (qs ! i)) p)\<rparr>
               \<and> snd (CanRunCypher L (QueryCypher (qs ! i)) p) \<noteq> []
          else (\<exists>j<length jobs.
                  jobs ! j =
                    \<lparr>Index = int j, ID = QueryID (qs ! i), Name = SheetName (qs ! i),
                     Cypher = QueryCypher (qs ! i)\<rparr>
                  \<and> outs ! i =
                      \<lparr>Query = qs ! i, Result = ResultSet (run jobs ! j),
                       Error = (case Err (run jobs ! j) of None \<Rightarrow> [] | Some e \<Rightarrow> ErrorString e),
                       OutSkipped = False, OutSkipWhy = []\<rparr>)"
      using each' by blast
  qed
qed

lemma catalog_flags:
  "fst (CanRunCypher exampleLib (QueryCypher (catalog ! 0)) adPresence) = True"
  "fst (CanRunCypher exampleLib (QueryCypher (catalog ! 1)) adPresence) = False"
  "fst (CanRunCypher exampleLib (QueryCypher (catalog ! 2)) adPresence) = True"
  by code_simp+

lemma catalog_why:
  "snd (CanRunCypher exampleLib (QueryCypher (catalog ! 1)) adPresence) = ''missing label: MemberOf''"
  by code_simp

lemma catalog_jobs:
  "plannedJobs exampleLib True adPresence catalog = [jobOf 0 (catalog ! 0), jobOf 1 (catalog ! 2)]"
  by code_simp

lemma catalog_results:
  "ResultSet (echoRun [jobOf 0 (catalog ! 0), jobOf 1 (catalog ! 2)] ! 1) =
     \<lparr>Columns = [''groups''], Rows = []\<rparr>"
  "Err (echoRun [jobOf 0 (catalog ! 0), jobOf 1 (catalog ! 2)] ! 1) = None"
  by code_simp+

theorem mainOutputs_complete_witness:
  "length (echoRun (plannedJobs exampleLib True adPresence catalog)) =
     length (plannedJobs exampleLib True adPresence catalog)
   \<and> (\<exists>outs. mainOutputs exampleLib True adPresence catalog echoRun = Some outs \<and> length outs = 3
         \<and> outs ! 1 =
             \<lparr>Query = catalog ! 1, Result = emptyResultSet, Error = [], OutSkipped = True,
              OutSkipWhy = ''missing label: MemberOf''\<rparr>
         \<and> outs ! 2 =
             \<lparr>Query = catalog ! 2, Result = \<lparr>Columns = [''groups''], Rows = []\<rparr>, Error = [],
              OutSkipped = False, OutSkipWhy = []\<rparr>)"
proof -
  let ?jobs = "plannedJobs exampleLib True adPresence catalog"
  have h: "length (echoRun ?jobs) = length ?jobs"
    by (simp add: echoRun_def)
  have l3: "length catalog = 3" by (simp add: catalog_def)
  obtain outs where o: "mainOutputs exampleLib True adPresence catalog echoRun = Some outs"
      "length outs = length catalog"
    and e: "\<forall>i<length catalog.
          if True \<and> \<not> fst (CanRunCypher exampleLib (QueryCypher (catalog ! i)) adPresence)
          then outs ! i =
                 \<lparr>Query = catalog ! i, Result = emptyResultSet, Error = [], OutSkipped = True,
                  OutSkipWhy = snd (CanRunCypher exampleLib (QueryCypher (catalog ! i)) adPresence)\<rparr>
               \<and> snd (CanRunCypher exampleLib (QueryCypher (catalog ! i)) adPresence) \<noteq> []
          else (\<exists>j<length ?jobs.
                  ?jobs ! j =
                    \<lparr>Index = int j, ID = QueryID (catalog ! i), Name = SheetName (catalog ! i),
                     Cypher = QueryCypher (catalog ! i)\<rparr>
                  \<and> outs ! i =
                      \<lparr>Query = catalog ! i, Result = ResultSet (echoRun ?jobs ! j),
                       Error = (case Err (echoRun ?jobs ! j) of
                                  None \<Rightarrow> [] | Some e \<Rightarrow> ErrorString e),
                       OutSkipped = False, OutSkipWhy = []\<rparr>)"
    using mainOutputs_complete [of echoRun exampleLib True adPresence catalog] h by blast
  have e1: "outs ! 1 =
             \<lparr>Query = catalog ! 1, Result = emptyResultSet, Error = [], OutSkipped = True,
              OutSkipWhy = ''missing label: MemberOf''\<rparr>"
    using e [rule_format, of 1] l3 catalog_flags catalog_why by simp
  obtain j where j: "j < length ?jobs"
      "?jobs ! j =
         \<lparr>Index = int j, ID = QueryID (catalog ! 2), Name = SheetName (catalog ! 2),
          Cypher = QueryCypher (catalog ! 2)\<rparr>"
      "outs ! 2 =
         \<lparr>Query = catalog ! 2, Result = ResultSet (echoRun ?jobs ! j),
          Error = (case Err (echoRun ?jobs ! j) of None \<Rightarrow> [] | Some e \<Rightarrow> ErrorString e),
          OutSkipped = False, OutSkipWhy = []\<rparr>"
    using e [rule_format, of 2] l3 catalog_flags by auto
  have j1: "j = 1"
  proof -
    have "j = 0 \<or> j = 1" using j(1) unfolding catalog_jobs by auto
    moreover have "QueryID (catalog ! 0) \<noteq> QueryID (catalog ! 2)" by code_simp
    ultimately show ?thesis using j(2) unfolding catalog_jobs
      by (auto simp: jobOf_def)
  qed
  have e2: "outs ! 2 =
             \<lparr>Query = catalog ! 2, Result = \<lparr>Columns = [''groups''], Rows = []\<rparr>, Error = [],
              OutSkipped = False, OutSkipWhy = []\<rparr>"
    using j(3) unfolding j1 catalog_jobs catalog_results by simp
  show ?thesis using h o l3 e1 e2 by auto
qed

end
